theory Spec2Isabelle
  imports Complex_Main "HOL-Library.Word"
begin

unbundle bit_operations_syntax

section \<open>Channel coding (ts36212\_channel\_coding.py)\<close>

subsection \<open>CRC attachment and check\<close>

text \<open>
  Bit arrays are numpy arrays of dtype uint8; every entry is read with \<open>int(b)\<close>, so an
  entry is an integer between 0 and 255. Python's unbounded integers are \<open>int\<close>; shift
  amounts and lengths, which the source never lets go negative, are \<open>nat\<close>.
\<close>

datatype CRCName = CRC24A | CRC24B | CRC16 | CRC8

definition poly_to_int :: "nat list \<Rightarrow> int" where
  "poly_to_int degrees = fold (\<lambda>d out. out OR push_bit d 1) degrees 0"

fun CRC_POLYS :: "CRCName \<Rightarrow> nat \<times> int" where
  "CRC_POLYS CRC24A = (24, poly_to_int [23, 18, 17, 14, 11, 10, 7, 6, 5, 4, 3, 1, 0])"
| "CRC_POLYS CRC24B = (24, poly_to_int [23, 6, 5, 1, 0])"
| "CRC_POLYS CRC16 = (16, poly_to_int [12, 5, 0])"
| "CRC_POLYS CRC8 = (8, poly_to_int [7, 4, 3, 1, 0])"

text \<open>One pass of the loop body shared by \<open>crc_attach\<close> and \<open>crc_check\<close>.\<close>

definition crc_step :: "nat \<Rightarrow> int \<Rightarrow> int \<Rightarrow> int \<Rightarrow> int" where
  "crc_step L poly b reg =
     (let msb = drop_bit (L - 1) reg AND 1;
          fb = msb XOR b;
          reg' = push_bit 1 reg AND (push_bit L 1 - 1)
      in if fb \<noteq> 0 then reg' XOR poly else reg')"

definition crc_attach :: "int list \<Rightarrow> CRCName \<Rightarrow> int list" where
  "crc_attach bits crc =
     (let (L, poly) = CRC_POLYS crc;
          reg1 = fold (crc_step L poly) bits 0;
          reg2 = fold (\<lambda>_. crc_step L poly 0) [0..<L] reg1;
          parity = map (\<lambda>i. drop_bit (L - 1 - i) reg2 AND 1) [0..<L]
      in bits @ parity)"

definition crc_check :: "int list \<Rightarrow> CRCName \<Rightarrow> int list \<times> bool" where
  "crc_check bits_with_crc crc =
     (let (L, poly) = CRC_POLYS crc
      in if length bits_with_crc < L then (bits_with_crc, False)
         else (let reg = fold (crc_step L poly) bits_with_crc 0
               in (take (length bits_with_crc - L) bits_with_crc, reg = 0)))"

definition crc_register :: "CRCName \<Rightarrow> int list \<Rightarrow> int" where
  "crc_register crc bs = fold (crc_step (fst (CRC_POLYS crc)) (snd (CRC_POLYS crc))) bs 0"

subsection \<open>Convolutional encoder\<close>

text \<open>
  \<open>_octal_to_int\<close> is \<open>int(str(oct_val), 8)\<close>: the decimal digits of the argument read
  in base 8. (Python raises on a digit 8 or 9; the generators 133, 171, 165 have none.)
\<close>

fun octal_to_int :: "nat \<Rightarrow> int" where
  "octal_to_int n = (if n < 10 then int n else int (n mod 10) + 8 * octal_to_int (n div 10))"

declare octal_to_int.simps [simp del]

text \<open>
  The configuration is a frozen dataclass, and the module builds one value of it, the
  default; its constraint length is 7.
\<close>

record ConvCodeConfig =
  constraint_len :: nat
  generators_octal :: "nat list"

definition DEFAULT_CONV :: ConvCodeConfig where
  "DEFAULT_CONV = \<lparr> constraint_len = 7, generators_octal = [133, 171, 165] \<rparr>"

definition generators :: "ConvCodeConfig \<Rightarrow> int list" where
  "generators cfg =
     map (\<lambda>g. g AND (push_bit (constraint_len cfg) 1 - 1))
         (map octal_to_int (generators_octal cfg))"

definition memory :: "ConvCodeConfig \<Rightarrow> nat" where
  "memory cfg = constraint_len cfg - 1"

definition n_states :: "ConvCodeConfig \<Rightarrow> nat" where
  "n_states cfg = push_bit (memory cfg) 1"

text \<open>\<open>int.bit_count\<close>: the number of ones in the binary expansion of the absolute value.\<close>

function bit_count :: "int \<Rightarrow> int" where
  "bit_count v = (if v = 0 then 0 else \<bar>v\<bar> mod 2 + bit_count (\<bar>v\<bar> div 2))"
  by pat_completeness auto
termination
  by (relation "measure (\<lambda>v. nat \<bar>v\<bar>)") auto

declare bit_count.simps [simp del]

text \<open>Python's \<open>xs[-k:]\<close> and \<open>xs[:-k]\<close> for \<open>k \<ge> 0\<close> (\<open>-0\<close> is \<open>0\<close>).\<close>

definition py_last :: "nat \<Rightarrow> 'a list \<Rightarrow> 'a list" where
  "py_last k xs = (if k = 0 then xs else drop (length xs - k) xs)"

definition py_drop_last :: "nat \<Rightarrow> 'a list \<Rightarrow> 'a list" where
  "py_drop_last k xs = (if k = 0 then [] else take (length xs - k) xs)"

text \<open>
  The initial register state of \<open>conv_encode\<close> (the first \<open>if\<close> of the function): with
  tail biting and at least \<open>m\<close> input bits it is built from \<open>bits[-m:]\<close>, bit \<open>i\<close> of
  that slice going to position \<open>m - 1 - i\<close>; otherwise it is zero.
\<close>

definition conv_init_state :: "ConvCodeConfig \<Rightarrow> bool \<Rightarrow> int list \<Rightarrow> int" where
  "conv_init_state cfg tail_biting bits =
     (let m = memory cfg
      in if tail_biting \<and> length bits \<ge> m
         then fold (\<lambda>(i, b) state. state OR push_bit (m - 1 - i) b)
                   (zip [0..<length (py_last m bits)] (py_last m bits)) 0
         else 0)"

text \<open>The three coded bits for register \<open>[u, s0..s5]\<close> and the successor state.\<close>

definition conv_out :: "nat \<Rightarrow> int list \<Rightarrow> int \<Rightarrow> int \<Rightarrow> int list" where
  "conv_out m gens state u =
     (let reg = push_bit m u OR state
      in map (\<lambda>g. bit_count (reg AND g) AND 1) gens)"

definition conv_next :: "nat \<Rightarrow> int \<Rightarrow> int \<Rightarrow> int" where
  "conv_next m state u = (push_bit (m - 1) u OR drop_bit 1 state) AND (push_bit m 1 - 1)"

fun conv_encode_loop :: "nat \<Rightarrow> int list \<Rightarrow> int \<Rightarrow> int list \<Rightarrow> int list" where
  "conv_encode_loop m gens state [] = []"
| "conv_encode_loop m gens state (b # in_bits) =
     conv_out m gens state b @ conv_encode_loop m gens (conv_next m state b) in_bits"

definition conv_encode :: "int list \<Rightarrow> bool \<Rightarrow> bool \<Rightarrow> ConvCodeConfig \<Rightarrow> int list" where
  "conv_encode bits terminate tail_biting cfg =
     (let m = memory cfg;
          gens = generators cfg;
          state = conv_init_state cfg tail_biting bits;
          in_bits = (if terminate \<and> \<not> tail_biting then bits @ replicate m 0 else bits)
      in conv_encode_loop m gens state in_bits)"

subsection \<open>Trellis and Viterbi decoder\<close>

text \<open>
  \<open>_build_trellis\<close> fills \<open>next_state[p, u]\<close> and \<open>out_bits[p, u, :]\<close> for every state
  \<open>p\<close> and input \<open>u\<close>; the tables are nested lists indexed in that order.
\<close>

definition build_trellis :: "ConvCodeConfig \<Rightarrow> int list list \<times> int list list list" where
  "build_trellis cfg =
     (let m = memory cfg;
          ns = n_states cfg;
          gens = generators cfg
      in (map (\<lambda>p. map (\<lambda>u. (push_bit (m - 1) u OR drop_bit 1 (int p)) AND (int ns - 1))
                     [0, 1]) [0..<ns],
          map (\<lambda>p. map (\<lambda>u. map (\<lambda>g. bit_count ((push_bit m u OR int p) AND g) AND 1) gens)
                     [0, 1]) [0..<ns]))"

definition TRELLIS_NEXT :: "int list list" where
  "TRELLIS_NEXT = fst (build_trellis DEFAULT_CONV)"

definition TRELLIS_OUT :: "int list list list" where
  "TRELLIS_OUT = snd (build_trellis DEFAULT_CONV)"

text \<open>
  Path metrics are an \<open>int32\<close> array: a sum that leaves the range wraps around. The branch
  distances are sums of three \<open>uint8\<close> values and wrap at 256.
\<close>

definition wrap32 :: "int \<Rightarrow> int" where
  "wrap32 x = (x + 2 ^ 31) mod 2 ^ 32 - 2 ^ 31"

definition INF_METRIC :: int where
  "INF_METRIC = 1000000000"

definition u_for_state :: "nat \<Rightarrow> int \<Rightarrow> int" where
  "u_for_state m s = drop_bit (m - 1) s AND 1"

definition p0 :: "nat \<Rightarrow> int \<Rightarrow> int" where
  "p0 m s = push_bit 1 (s AND (push_bit (m - 1) 1 - 1))"

definition p1 :: "nat \<Rightarrow> int \<Rightarrow> int" where
  "p1 m s = p0 m s OR 1"

definition branch_dist :: "int list \<Rightarrow> int \<Rightarrow> int \<Rightarrow> int \<Rightarrow> int" where
  "branch_dist out y0 y1 y2 = ((out ! 0 XOR y0) + (out ! 1 XOR y1) + (out ! 2 XOR y2)) mod 256"

text \<open>
  One pass of the main recursion: for every state the two candidates, the comparison
  \<open>cand1 < cand0\<close>, the new metric and the surviving predecessor.
\<close>

definition viterbi_cell :: "nat \<Rightarrow> int list \<Rightarrow> int \<Rightarrow> int \<Rightarrow> int \<Rightarrow> int \<Rightarrow> int \<times> int" where
  "viterbi_cell m metrics y0 y1 y2 s =
     (let out0 = TRELLIS_OUT ! nat (p0 m s) ! nat (u_for_state m s);
          out1 = TRELLIS_OUT ! nat (p1 m s) ! nat (u_for_state m s);
          dist0 = branch_dist out0 y0 y1 y2;
          dist1 = branch_dist out1 y0 y1 y2;
          cand0 = wrap32 (metrics ! nat (p0 m s) + dist0);
          cand1 = wrap32 (metrics ! nat (p1 m s) + dist1);
          take1 = cand1 < cand0
      in (if take1 then cand1 else cand0, if take1 then p1 m s else p0 m s))"

definition viterbi_step ::
  "nat \<Rightarrow> nat \<Rightarrow> int list \<Rightarrow> int \<Rightarrow> int \<Rightarrow> int \<Rightarrow> int list \<times> int list" where
  "viterbi_step m ns metrics y0 y1 y2 =
     (map (\<lambda>s. fst (viterbi_cell m metrics y0 y1 y2 (int s))) [0..<ns],
      map (\<lambda>s. snd (viterbi_cell m metrics y0 y1 y2 (int s))) [0..<ns])"

text \<open>
  The forward loop over \<open>t = 0, ..., n_steps - 1\<close>. \<open>prev_state\<close> is allocated with
  \<open>np.empty\<close> and row \<open>t\<close> is written in pass \<open>t\<close>; the initial rows stand for the
  unwritten memory, which is never read.
\<close>

definition viterbi_forward :: "nat \<Rightarrow> nat \<Rightarrow> int list \<Rightarrow> nat \<Rightarrow> int list \<times> int list list" where
  "viterbi_forward m ns coded_bits n_steps =
     fold (\<lambda>t (metrics, prev_state).
             let (metrics', row) =
                   viterbi_step m ns metrics (coded_bits ! (3 * t)) (coded_bits ! (3 * t + 1))
                     (coded_bits ! (3 * t + 2))
             in (metrics', prev_state[t := row]))
          [0..<n_steps]
          ((replicate ns INF_METRIC)[0 := 0], replicate n_steps (replicate ns 0))"

text \<open>
  The traceback loop over \<open>t = n_steps - 1, ..., 0\<close>, from state 0. \<open>u_hat\<close> is
  allocated with \<open>np.empty\<close> too, and the loop writes every entry of it.
\<close>

definition viterbi_traceback :: "nat \<Rightarrow> int list list \<Rightarrow> nat \<Rightarrow> int \<times> int list" where
  "viterbi_traceback m prev_state n_steps =
     fold (\<lambda>t (state, u_hat).
             (prev_state ! t ! nat state, u_hat[t := drop_bit (m - 1) state AND 1]))
          (rev [0..<n_steps])
          (0, replicate n_steps 0)"

definition conv_decode_terminated :: "int list \<Rightarrow> ConvCodeConfig \<Rightarrow> bool \<Rightarrow> int list" where
  "conv_decode_terminated coded_bits cfg drop_tail =
     (let coded = (if length coded_bits mod 3 \<noteq> 0
                   then take (length coded_bits - length coded_bits mod 3) coded_bits
                   else coded_bits);
          m = memory cfg;
          ns = n_states cfg;
          n_steps = length coded div 3;
          (metrics, prev_state) = viterbi_forward m ns coded n_steps;
          (state, u_hat) = viterbi_traceback m prev_state n_steps
      in if drop_tail \<and> n_steps \<ge> m then py_drop_last m u_hat else u_hat)"

section \<open>OFDM framing (ofdm\_ops.py)\<close>

text \<open>
  Samples are complex numbers; the framing functions never look at them, so their type is
  left open. Python's slices: \<open>xs[a:b]\<close> for \<open>0 \<le> a \<le> b\<close>, \<open>xs[i:]\<close> for any integer
  \<open>i\<close> (a negative \<open>i\<close> counts from the end), and \<open>int(x)\<close>, which truncates towards
  zero.
\<close>

datatype py_error = ValueError | ZeroDivisionError

definition py_slice :: "'a list \<Rightarrow> nat \<Rightarrow> nat \<Rightarrow> 'a list" where
  "py_slice xs a b = take (b - a) (drop a xs)"

definition py_slice_from :: "int \<Rightarrow> 'a list \<Rightarrow> 'a list" where
  "py_slice_from i xs = (if i \<ge> 0 then drop (nat i) xs else drop (nat (int (length xs) + i)) xs)"

definition py_slice_to :: "int \<Rightarrow> 'a list \<Rightarrow> 'a list" where
  "py_slice_to k xs = (if k \<ge> 0 then take (nat k) xs else take (nat (int (length xs) + k)) xs)"

definition py_int :: "real \<Rightarrow> int" where
  "py_int x = (if x \<ge> 0 then \<lfloor>x\<rfloor> else \<lceil>x\<rceil>)"

definition add_cyclic_prefix :: "'a list \<Rightarrow> nat \<Rightarrow> nat \<Rightarrow> real \<Rightarrow> 'a list \<times> int" where
  "add_cyclic_prefix signal num_blocks n_fft cp_ratio =
     (let cp_len = py_int (real n_fft * cp_ratio)
      in (concat (map (\<lambda>i. let block = py_slice signal (i * n_fft) ((i + 1) * n_fft);
                                 cp = py_slice_from (- cp_len) block
                             in cp @ block)
                      [0..<num_blocks]),
          cp_len))"

definition remove_cyclic_prefix :: "'a list \<Rightarrow> nat \<Rightarrow> int \<Rightarrow> py_error + 'a list" where
  "remove_cyclic_prefix rx_signal n_fft cp_len =
     (let block_len = int n_fft + cp_len
      in if block_len = 0 then Inl ZeroDivisionError
         else (let num_blocks = int (length rx_signal) div block_len
               in Inr (concat (map (\<lambda>i. let full_block = py_slice rx_signal (i * nat block_len)
                                                              ((i + 1) * nat block_len)
                                         in py_slice_from cp_len full_block)
                                   [0..<nat num_blocks]))))"

subsection \<open>Zero-forcing equaliser\<close>

text \<open>
  \<open>np.fft.fft(a, n)\<close> is the \<open>n\<close>-point discrete Fourier transform of \<open>a\<close>, cropped or
  padded with zeros to length \<open>n\<close>; it raises \<open>ValueError\<close> for \<open>n < 1\<close>. The transform is
  written here over the complex numbers; the rounding of the double-precision arithmetic
  that numpy computes with is not represented.
\<close>

definition dft :: "complex list \<Rightarrow> complex list" where
  "dft a = map (\<lambda>k. \<Sum>j = 0..<length a. a ! j * cis (- 2 * pi * real j * real k / real (length a)))
               [0..<length a]"

definition np_fft :: "complex list \<Rightarrow> nat \<Rightarrow> py_error + complex list" where
  "np_fft a n = (if n < 1 then Inl ValueError
                 else Inr (dft (take n a @ replicate (n - length a) 0)))"

text \<open>
  Element-wise division of two one-dimensional arrays: equal lengths, or one of them of
  length one (broadcast); anything else raises \<open>ValueError\<close>.
\<close>

definition np_divide :: "complex list \<Rightarrow> complex list \<Rightarrow> py_error + complex list" where
  "np_divide a b =
     (if length a = length b then Inr (map2 (/) a b)
      else if length b = 1 then Inr (map (\<lambda>x. x / b ! 0) a)
      else if length a = 1 then Inr (map (\<lambda>y. a ! 0 / y) b)
      else Inl ValueError)"

definition threshold :: real where
  "threshold = 1 / 10 ^ 10"

definition clamp :: "complex \<Rightarrow> complex" where
  "clamp z = (if cmod z < threshold then complex_of_real threshold else z)"

definition equalize_channel ::
  "complex list \<Rightarrow> complex list \<Rightarrow> nat \<Rightarrow> nat \<Rightarrow> py_error + complex list" where
  "equalize_channel rx_freq_symbols h_impulse_response n_fft nc =
     (case np_fft h_impulse_response n_fft of
        Inl e \<Rightarrow> Inl e
      | Inr H_freq \<Rightarrow>
          (let H_data = map clamp (py_slice H_freq 1 (nc + 1))
           in if nc = 0 then Inl ZeroDivisionError
              else np_divide rx_freq_symbols
                     (take (length rx_freq_symbols)
                        (concat (replicate (length rx_freq_symbols div nc + 1) H_data)))))"

section \<open>Scrambler (utils.py)\<close>

text \<open>
  numpy's global generator is state that the function reads and writes. Its three
  operations are parameters of the model: \<open>seed_fn s\<close> is the state that
  \<open>np.random.seed(s)\<close> installs (a seed is a 32-bit unsigned integer), and
  \<open>randint st n\<close> is the array drawn by \<open>np.random.randint(0, 2, n)\<close> in state \<open>st\<close>
  together with the state it leaves. \<open>get_state\<close> and \<open>set_state\<close> read and overwrite
  the state. The function returns its result and the generator state it leaves behind.
\<close>

definition apply_scrambling ::
  "(32 word \<Rightarrow> 'st) \<Rightarrow> ('st \<Rightarrow> nat \<Rightarrow> int list \<times> 'st) \<Rightarrow> int list \<Rightarrow> 32 word \<Rightarrow> 'st
     \<Rightarrow> int list \<times> 'st" where
  "apply_scrambling seed_fn randint bits seed st0 =
     (let state = st0;
          st1 = seed_fn seed;
          (scrambling_sequence, st2) = randint st1 (length bits);
          scrambled_bits = map2 (XOR) bits scrambling_sequence;
          st3 = state
      in (scrambled_bits, st3))"

section \<open>Channel model (channel.py)\<close>

text \<open>
  \<open>apply_rayleigh\<close> builds the impulse response \<open>h\<close> first and returns it unchanged next
  to the noisy signal. \<open>apply_rayleigh_h\<close> is that first part of the function, over the
  real numbers (no rounding).
\<close>

definition base_h :: "real list" where
  "base_h = [1, 1 / 10, 1 / 10, 1 / 10, 1 / 10, 1 / 10, 1 / 10, 1 / 10, 1 / 2, 1 / 2]"

definition apply_rayleigh_h :: "int \<Rightarrow> complex list" where
  "apply_rayleigh_h num_taps =
     (if num_taps = 1 then [1]
      else (let h = (if num_taps \<le> int (length base_h) then py_slice_to num_taps base_h
                     else base_h @ replicate (nat (num_taps - int (length base_h))) 0)
            in map (\<lambda>x. complex_of_real (x / sqrt (\<Sum>y\<leftarrow>h. \<bar>y\<bar> ^ 2))) h))"

section \<open>Notions used in the proofs\<close>

text \<open>
  The register state of the encoder after the first \<open>t\<close> bits of \<open>w\<close>, started in state
  \<open>s\<close>: the path through the trellis that the encoder takes.
\<close>

definition enc_state :: "int \<Rightarrow> int list \<Rightarrow> nat \<Rightarrow> int" where
  "enc_state s w t = fold (\<lambda>u state. conv_next 6 state u) (take t w) s"

text \<open>
  What the path metrics look like while the decoder follows a codeword without errors:
  the metric of the state \<open>\<tau>\<close> the encoder was in is 0, no metric is negative, and a
  state that agrees with \<open>\<tau>\<close> on its \<open>6 - j\<close> oldest bits has a metric of at most
  \<open>INF + 3 * j\<close>, so that no sum formed in the next pass leaves the \<open>int32\<close> range.
\<close>

definition path_inv :: "int list \<Rightarrow> int \<Rightarrow> bool" where
  "path_inv metrics \<tau> \<longleftrightarrow>
     length metrics = 64 \<and> metrics ! nat \<tau> = 0 \<and>
     (\<forall>s \<in> {0..63}. 0 \<le> metrics ! nat s \<and>
        (\<forall>j \<le> 6. s mod 2 ^ (6 - j) = \<tau> mod 2 ^ (6 - j)
                 \<longrightarrow> metrics ! nat s \<le> INF_METRIC + 3 * int j))"

text \<open>
  The candidate metric of a transition out of state \<open>p\<close> on input \<open>u\<close>, before the
  \<open>int32\<close> wrap-around.
\<close>

definition cand :: "int list \<Rightarrow> int \<Rightarrow> int \<Rightarrow> int \<Rightarrow> int \<Rightarrow> int \<Rightarrow> int" where
  "cand metrics y0 y1 y2 p u =
     metrics ! nat p + branch_dist (conv_out 6 [91, 121, 117] p u) y0 y1 y2"

text \<open>
  The metrics and the predecessor table after the first \<open>t\<close> passes of the forward loop
  of a decoder run of \<open>n_steps\<close> passes (the loop of \<open>viterbi_forward\<close>, stopped early).
\<close>

definition forward_state :: "int list \<Rightarrow> nat \<Rightarrow> nat \<Rightarrow> int list \<times> int list list" where
  "forward_state coded_bits n_steps t =
     fold (\<lambda>t (metrics, prev_state).
             let (metrics', row) =
                   viterbi_step 6 64 metrics (coded_bits ! (3 * t)) (coded_bits ! (3 * t + 1))
                     (coded_bits ! (3 * t + 2))
             in (metrics', prev_state[t := row]))
          [0..<t]
          ((replicate 64 INF_METRIC)[0 := 0], replicate n_steps (replicate 64 0))"

text \<open>
  The state and the decoded bits of the traceback loop once it has handled
  \<open>t = n_steps - 1, ..., k\<close> (the loop of \<open>viterbi_traceback\<close>, stopped early).
\<close>

definition traceback_state :: "int list list \<Rightarrow> nat \<Rightarrow> nat \<Rightarrow> int \<times> int list" where
  "traceback_state prev_state n_steps k =
     fold (\<lambda>t (state, u_hat).
             (prev_state ! t ! nat state, u_hat[t := drop_bit (6 - 1) state AND 1]))
          (rev [k..<n_steps])
          (0, replicate n_steps 0)"

text \<open>
  The initial state as claim C6 words it, for comparison with \<open>conv_init_state\<close>: the
  last six bits, the last bit in the most significant position. This definition follows the
  claim, not the source.
\<close>

definition claimed_init_state :: "int list \<Rightarrow> int" where
  "claimed_init_state bits =
     fold (\<lambda>(i, b) state. state OR push_bit (5 - i) b) (zip [0..<6] (rev (py_last 6 bits))) 0"

text \<open>The six bits of a register state, most significant first.\<close>

definition state_bits :: "int \<Rightarrow> int list" where
  "state_bits s = [s div 32 mod 2, s div 16 mod 2, s div 8 mod 2, s div 4 mod 2, s div 2 mod 2,
                   s mod 2]"

section \<open>Properties of the CRC\<close>

lemma CRC_POLYS_values:
  "CRC_POLYS CRC24A = (24, 8801531)" "CRC_POLYS CRC24B = (24, 8388707)"
  "CRC_POLYS CRC16 = (16, 4129)" "CRC_POLYS CRC8 = (8, 155)"
  by (simp_all add: poly_to_int_def)

lemma CRC_POLYS_degree: "fst (CRC_POLYS crc) \<in> {8, 16, 24}"
  by (cases crc) (simp_all add: poly_to_int_def)

lemma crc_attach_length: "length (crc_attach bs crc) = length bs + fst (CRC_POLYS crc)"
  by (simp add: crc_attach_def split_beta Let_def)

text \<open>The payload that \<open>crc_check\<close> hands back after \<open>crc_attach\<close> is the message.\<close>

lemma crc_check_attach_payload: "fst (crc_check (crc_attach bs crc) crc) = bs"
  by (simp add: crc_check_def crc_attach_def split_beta Let_def)

text \<open>
  Claim C8. An input shorter than the degree \<open>L\<close> of the named polynomial is rejected
  (\<open>ok = False\<close>); for an input of at least \<open>L\<close> entries, \<open>ok\<close> holds exactly when the
  shift register, run from zero over the whole input (bits followed by parity), ends at zero.
\<close>

theorem crc_check_ok:
  "(length bs < fst (CRC_POLYS crc) \<longrightarrow> snd (crc_check bs crc) = False) \<and>
   (fst (CRC_POLYS crc) \<le> length bs \<longrightarrow> snd (crc_check bs crc) = (crc_register crc bs = 0))"
  by (simp add: crc_check_def crc_register_def split_beta Let_def)

theorem crc_check_ok_witness:
  "snd (crc_check [1, 0, 1] CRC8) = False \<and>
   snd (crc_check [1, 0, 0, 0, 1, 0, 1, 1, 0] CRC8)
     = (crc_register CRC8 [1, 0, 0, 0, 1, 0, 1, 1, 0] = 0)"
  using crc_check_ok [of "[1, 0, 1]" CRC8] crc_check_ok [of "[1, 0, 0, 0, 1, 0, 1, 1, 0]" CRC8]
  by (simp add: CRC_POLYS_values)

text \<open>
  Claim C2 says that \<open>crc_check (crc_attach b name) name = (b, True)\<close> for every bit
  array \<open>b\<close>. The code does not do this. \<open>crc_attach\<close> runs the register over the message
  and then over \<open>L\<close> further zero bits before it reads the parity off; since each step already
  feeds its input bit in at the top of the register, the parity is the remainder of the
  message times \<open>D^(2L)\<close>, not times \<open>D^L\<close>, and the register of \<open>crc_check\<close> does not
  come back to zero. For the one-bit message \<open>[1]\<close> and CRC24A the check returns the
  payload with \<open>ok = False\<close>.
\<close>

theorem crc_roundtrip_fails:
  "crc_check (crc_attach [1] CRC24A) CRC24A = ([1], False)"
proof -
  have r1: "fold (crc_step 24 8801531) [1] 0 = 8801531"
    by (simp add: crc_step_def)
  have r2: "fold (\<lambda>_. crc_step 24 8801531 0) [0..<24] 8801531 = 3541330"
    by (simp add: crc_step_def upt_conv_Cons)
  have par: "map (\<lambda>i. drop_bit (23 - i) (3541330 :: int) AND 1) [0..<24]
      = [0, 0, 1, 1, 0, 1, 1, 0, 0, 0, 0, 0, 1, 0, 0, 1, 0, 1, 0, 1, 0, 0, 1, 0]"
    by (simp add: upt_conv_Cons)
  have att: "crc_attach [1] CRC24A
      = [1, 0, 0, 1, 1, 0, 1, 1, 0, 0, 0, 0, 0, 1, 0, 0, 1, 0, 1, 0, 1, 0, 0, 1, 0]"
    unfolding crc_attach_def CRC_POLYS_values Let_def prod.case r1 r2 by (simp add: par)
  have r3: "fold (crc_step 24 8801531)
      [1, 0, 0, 1, 1, 0, 1, 1, 0, 0, 0, 0, 0, 1, 0, 0, 1, 0, 1, 0, 1, 0, 0, 1, 0] 0 = 891102"
    by (simp add: crc_step_def)
  show ?thesis
    unfolding att unfolding crc_check_def CRC_POLYS_values Let_def prod.case r3 by simp
qed

text \<open>The same happens with the other three polynomials.\<close>

lemma crc_roundtrip_fails_CRC24B:
  "crc_check (crc_attach [1] CRC24B) CRC24B = ([1], False)"
proof -
  have r1: "fold (crc_step 24 8388707) [1] 0 = 8388707"
    by (simp add: crc_step_def)
  have r2: "fold (\<lambda>_. crc_step 24 8388707 0) [0..<24] 8388707 = 8392741"
    by (simp add: crc_step_def upt_conv_Cons)
  have par: "map (\<lambda>i. drop_bit (23 - i) (8392741 :: int) AND 1) [0..<24]
      = [1, 0, 0, 0, 0, 0, 0, 0, 0, 0, 0, 1, 0, 0, 0, 0, 0, 0, 1, 0, 0, 1, 0, 1]"
    by (simp add: upt_conv_Cons)
  have att: "crc_attach [1] CRC24B
      = [1, 1, 0, 0, 0, 0, 0, 0, 0, 0, 0, 0, 1, 0, 0, 0, 0, 0, 0, 1, 0, 0, 1, 0, 1]"
    unfolding crc_attach_def CRC_POLYS_values Let_def prod.case r1 r2 by (simp add: par)
  have r3: "fold (crc_step 24 8388707)
      [1, 1, 0, 0, 0, 0, 0, 0, 0, 0, 0, 0, 1, 0, 0, 0, 0, 0, 0, 1, 0, 0, 1, 0, 1] 0 = 274700"
    by (simp add: crc_step_def)
  show ?thesis
    unfolding att unfolding crc_check_def CRC_POLYS_values Let_def prod.case r3 by simp
qed

lemma crc_roundtrip_fails_CRC16:
  "crc_check (crc_attach [1] CRC16) CRC16 = ([1], False)"
proof -
  have r1: "fold (crc_step 16 4129) [1] 0 = 4129"
    by (simp add: crc_step_def)
  have r2: "fold (\<lambda>_. crc_step 16 4129 0) [0..<16] 4129 = 14128"
    by (simp add: crc_step_def upt_conv_Cons)
  have par: "map (\<lambda>i. drop_bit (15 - i) (14128 :: int) AND 1) [0..<16]
      = [0, 0, 1, 1, 0, 1, 1, 1, 0, 0, 1, 1, 0, 0, 0, 0]"
    by (simp add: upt_conv_Cons)
  have att: "crc_attach [1] CRC16
      = [1, 0, 0, 1, 1, 0, 1, 1, 1, 0, 0, 1, 1, 0, 0, 0, 0]"
    unfolding crc_attach_def CRC_POLYS_values Let_def prod.case r1 r2 by (simp add: par)
  have r3: "fold (crc_step 16 4129)
      [1, 0, 0, 1, 1, 0, 1, 1, 1, 0, 0, 1, 1, 0, 0, 0, 0] 0 = 40289"
    by (simp add: crc_step_def)
  show ?thesis
    unfolding att unfolding crc_check_def CRC_POLYS_values Let_def prod.case r3 by simp
qed

lemma crc_roundtrip_fails_CRC8:
  "crc_check (crc_attach [1] CRC8) CRC8 = ([1], False)"
proof -
  have r1: "fold (crc_step 8 155) [1] 0 = 155"
    by (simp add: crc_step_def)
  have r2: "fold (\<lambda>_. crc_step 8 155 0) [0..<8] 155 = 22"
    by (simp add: crc_step_def upt_conv_Cons)
  have par: "map (\<lambda>i. drop_bit (7 - i) (22 :: int) AND 1) [0..<8]
      = [0, 0, 0, 1, 0, 1, 1, 0]"
    by (simp add: upt_conv_Cons)
  have att: "crc_attach [1] CRC8
      = [1, 0, 0, 0, 1, 0, 1, 1, 0]"
    unfolding crc_attach_def CRC_POLYS_values Let_def prod.case r1 r2 by (simp add: par)
  have r3: "fold (crc_step 8 155)
      [1, 0, 0, 0, 1, 0, 1, 1, 0] 0 = 72"
    by (simp add: crc_step_def)
  show ?thesis
    unfolding att unfolding crc_check_def CRC_POLYS_values Let_def prod.case r3 by simp
qed

text \<open>
  The check can succeed: on the all-zero message the parity is zero whichever power of
  \<open>D\<close> multiplies the message.
\<close>

lemma crc_check_zero_message: "crc_check (crc_attach [0, 0, 0] CRC8) CRC8 = ([0, 0, 0], True)"
  by (simp add: crc_check_def crc_attach_def CRC_POLYS_values crc_step_def upt_conv_Cons)

text \<open>
  Where the slip is. A register step whose input bit equals the top bit of the register
  shifts that bit out without feedback, so feeding a register its own \<open>L\<close> bits, top bit
  first, empties it. Hence the register read off directly after the message bits is a
  parity that \<open>crc_check\<close> accepts, for every message and every polynomial;
  \<open>crc_attach\<close> reads it off \<open>L\<close> zero steps later.
\<close>

lemma crc_step_take_bit:
  "crc_step L poly b reg =
     (if (drop_bit (L - 1) reg AND 1) XOR b \<noteq> 0 then take_bit L (push_bit 1 reg) XOR poly
      else take_bit L (push_bit 1 reg))"
proof -
  have "push_bit L 1 - 1 = (mask L :: int)"
    by (simp add: mask_eq_exp_minus_1 push_bit_eq_mult)
  then show ?thesis
    by (simp add: crc_step_def Let_def take_bit_eq_mask)
qed

lemma crc_step_fits:
  assumes "take_bit L poly = poly"
  shows "take_bit L (crc_step L poly b reg) = crc_step L poly b reg"
  using assms by (simp add: crc_step_take_bit take_bit_xor)

lemma crc_fold_fits:
  assumes "take_bit L poly = poly" "take_bit L reg = reg"
  shows "take_bit L (fold (crc_step L poly) bs reg) = fold (crc_step L poly) bs reg"
  using assms(2)
proof (induction bs arbitrary: reg)
  case Nil
  then show ?case by simp
next
  case (Cons b bs)
  show ?case
    using Cons.IH [OF crc_step_fits [OF assms(1)]] by simp
qed

lemma crc_step_shift_out:
  assumes "k < L"
  shows "crc_step L poly (drop_bit (L - 1 - k) r AND 1) (take_bit L (push_bit k r))
           = take_bit L (push_bit (Suc k) r)"
proof -
  have msb: "drop_bit (L - 1) (take_bit L (push_bit k r)) AND 1 = drop_bit (L - 1 - k) r AND 1"
    using assms by (intro bit_eqI) (auto simp: bit_simps)
  have shift: "take_bit L (push_bit 1 (take_bit L (push_bit k r))) = take_bit L (push_bit (Suc k) r)"
    using assms by (intro bit_eqI) (auto simp: bit_simps simp del: push_bit_Suc)
  show ?thesis
    by (simp only: crc_step_take_bit msb shift bit.xor_self if_False simp_thms)
qed

lemma crc_shift_out_fold:
  assumes "k \<le> L"
  shows "fold (crc_step L poly) (map (\<lambda>i. drop_bit (L - 1 - i) r AND 1) [0..<k]) (take_bit L r)
           = take_bit L (push_bit k r)"
  using assms
proof (induction k)
  case 0
  then show ?case by simp
next
  case (Suc k)
  then have "k < L" and IH: "fold (crc_step L poly) (map (\<lambda>i. drop_bit (L - 1 - i) r AND 1) [0..<k])
      (take_bit L r) = take_bit L (push_bit k r)"
    by simp_all
  have "[0..<Suc k] = [0..<k] @ [k]"
    by simp
  then have "fold (crc_step L poly) (map (\<lambda>i. drop_bit (L - 1 - i) r AND 1) [0..<Suc k])
               (take_bit L r)
             = crc_step L poly (drop_bit (L - 1 - k) r AND 1)
                 (fold (crc_step L poly) (map (\<lambda>i. drop_bit (L - 1 - i) r AND 1) [0..<k])
                    (take_bit L r))"
    by (simp only: map_append list.map fold_append fold_simps o_apply id_apply)
  then show ?case
    by (simp only: IH crc_step_shift_out [OF \<open>k < L\<close>])
qed

lemma crc_readout_checks:
  assumes "CRC_POLYS crc = (L, poly)" and "take_bit L poly = poly"
  shows "crc_register crc
           (bs @ map (\<lambda>i. drop_bit (L - 1 - i) (crc_register crc bs) AND 1) [0..<L]) = 0"
proof -
  define r where "r = fold (crc_step L poly) bs 0"
  have fits: "take_bit L r = r"
    unfolding r_def using assms(2) by (intro crc_fold_fits) simp_all
  have "fold (crc_step L poly) (map (\<lambda>i. drop_bit (L - 1 - i) r AND 1) [0..<L]) (take_bit L r)
          = take_bit L (push_bit L r)"
    by (rule crc_shift_out_fold) simp
  then have "fold (crc_step L poly) (map (\<lambda>i. drop_bit (L - 1 - i) r AND 1) [0..<L]) r = 0"
    by (simp add: fits take_bit_push_bit)
  then show ?thesis
    by (simp add: crc_register_def assms(1) r_def)
qed

lemma CRC_POLYS_fit: "take_bit (fst (CRC_POLYS crc)) (snd (CRC_POLYS crc)) = snd (CRC_POLYS crc)"
  by (cases crc) (simp_all add: poly_to_int_def take_bit_eq_mod)

lemma crc_check_of_readout:
  "crc_check (bs @ map (\<lambda>i. drop_bit (fst (CRC_POLYS crc) - 1 - i) (crc_register crc bs) AND 1)
                    [0..<fst (CRC_POLYS crc)]) crc = (bs, True)"
proof -
  obtain L poly where lp: "CRC_POLYS crc = (L, poly)"
    by (cases "CRC_POLYS crc")
  have "take_bit L poly = poly"
    using CRC_POLYS_fit [of crc] by (simp add: lp)
  from crc_readout_checks [OF lp this, of bs] show ?thesis
    by (simp add: crc_check_def lp crc_register_def)
qed


section \<open>Properties of the convolutional encoder\<close>

lemma memory_DEFAULT_CONV: "memory DEFAULT_CONV = 6"
  by (simp add: memory_def DEFAULT_CONV_def)

lemma generators_DEFAULT_CONV: "generators DEFAULT_CONV = [91, 121, 117]"
  by (simp add: generators_def DEFAULT_CONV_def octal_to_int.simps)

lemma n_states_DEFAULT_CONV: "n_states DEFAULT_CONV = 64"
  by (simp add: n_states_def memory_DEFAULT_CONV)

lemma conv_out_length: "length (conv_out m gens state u) = length gens"
  by (simp add: conv_out_def)

lemma conv_encode_loop_length:
  "length (conv_encode_loop m gens state in_bits) = length gens * length in_bits"
  by (induction in_bits arbitrary: state) (simp_all add: conv_out_length)

text \<open>The terminated encoding of the one-bit message \<open>[1]\<close>: seven triples.\<close>

lemma conv_encode_example:
  "conv_encode [1] True False DEFAULT_CONV
     = [1, 1, 1, 0, 1, 1, 1, 1, 1, 1, 1, 0, 0, 0, 1, 1, 0, 0, 1, 1, 1]"
proof -
  have zeros: "replicate 6 (0 :: int) = [0, 0, 0, 0, 0, 0]"
    by (simp add: numeral_eq_Suc)
  have "conv_encode [1] True False DEFAULT_CONV
          = conv_encode_loop 6 [91, 121, 117] 0 [1, 0, 0, 0, 0, 0, 0]"
    by (simp add: conv_encode_def conv_init_state_def memory_DEFAULT_CONV
        generators_DEFAULT_CONV zeros Let_def)
  then show ?thesis
    by (simp add: conv_out_def conv_next_def bit_count.simps Let_def)
qed

text \<open>
  Claim C5, amended. The output of \<open>conv_encode\<close> has \<open>3 * (len + 6)\<close> entries when
  \<open>terminate\<close> is set and \<open>tail_biting\<close> is not, and \<open>3 * len\<close> entries in every other
  case: the six flushing zeros are appended under the guard
  \<open>terminate and not tail_biting\<close> only.
\<close>

theorem conv_encode_length:
  "length (conv_encode bits terminate tail_biting DEFAULT_CONV)
     = (if terminate \<and> \<not> tail_biting then 3 * (length bits + 6) else 3 * length bits)"
  by (simp add: conv_encode_def conv_encode_loop_length memory_DEFAULT_CONV
      generators_DEFAULT_CONV)

theorem conv_encode_length_witness:
  "length (conv_encode [1, 0] True False DEFAULT_CONV) = 24 \<and>
   length (conv_encode [1, 0] True True DEFAULT_CONV) = 6 \<and>
   length (conv_encode [1, 0] False False DEFAULT_CONV) = 6"
  using conv_encode_length [of "[1, 0]" True False] conv_encode_length [of "[1, 0]" True True]
    conv_encode_length [of "[1, 0]" False False]
  by simp

text \<open>
  Claim C5 as written asks for \<open>3 * (len + 6)\<close> whenever \<open>terminate\<close> is set, for either
  value of \<open>tail_biting\<close>. With both flags set the one-bit input gives three coded bits.
\<close>

theorem conv_encode_length_counterexample:
  "length (conv_encode [1] True True DEFAULT_CONV) \<noteq> 3 * (length [1 :: int] + 6)"
  by (simp add: conv_encode_def conv_out_length memory_DEFAULT_CONV generators_DEFAULT_CONV)


subsection \<open>Initial state of the encoder\<close>

lemma length6_ex: "length xs = 6 \<Longrightarrow> \<exists>a b c d e f. xs = [a, b, c, d, e, f]"
  by (auto simp: length_Suc_conv eval_nat_numeral)

lemma seed_fold_value:
  assumes "a \<in> {0, 1}" "b \<in> {0, 1}" "c \<in> {0, 1}" "d \<in> {0, 1}" "e \<in> {0, 1}" "f \<in> {0, 1}"
  shows "fold (\<lambda>(i, b) state. state OR push_bit (6 - 1 - i) b)
              (zip [0..<length [a, b, c, d, e, f]] [a, b, c, d, e, f :: int]) 0
           = 32 * a + 16 * b + 8 * c + 4 * d + 2 * e + f"
  using assms by (auto simp: upt_conv_Cons)

lemma state_bits_seed:
  assumes "a \<in> {0, 1}" "b \<in> {0, 1}" "c \<in> {0, 1}" "d \<in> {0, 1}" "e \<in> {0, 1}" "f \<in> {0, 1}"
  shows "state_bits (32 * a + 16 * b + 8 * c + 4 * d + 2 * e + f) = [a, b, c, d, e, f]"
    and "0 \<le> 32 * a + 16 * b + 8 * c + 4 * d + 2 * e + f"
    and "32 * a + 16 * b + 8 * c + 4 * d + 2 * e + f < 64"
  using assms by (auto simp: state_bits_def)

lemma py_last_length: "k \<le> length xs \<Longrightarrow> 0 < k \<Longrightarrow> length (py_last k xs) = k"
  by (simp add: py_last_def)

lemma py_last_idem: "k \<le> length xs \<Longrightarrow> py_last k (py_last k xs) = py_last k xs"
  by (simp add: py_last_def)

lemma py_last_set: "set (py_last k xs) \<subseteq> set xs"
  by (auto simp: py_last_def dest: in_set_dropD)

text \<open>
  With tail biting and at least six input bits, the six bits of the initial state are the
  last six input bits, the first of them (\<open>bits[-6]\<close>) in the top position.
\<close>

lemma conv_init_state_last:
  assumes "6 \<le> length bits" "set bits \<subseteq> {0, 1}"
  shows "state_bits (conv_init_state DEFAULT_CONV True bits) = py_last 6 bits"
    and "0 \<le> conv_init_state DEFAULT_CONV True bits"
    and "conv_init_state DEFAULT_CONV True bits < 64"
proof -
  have "length (py_last 6 bits) = 6"
    using assms(1) by (simp add: py_last_length)
  with length6_ex [of "py_last 6 bits"] obtain a b c d e f
    where l: "py_last 6 bits = [a, b, c, d, e, f]"
    by blast
  have "set (py_last 6 bits) \<subseteq> {0, 1}"
    by (rule subset_trans [OF py_last_set assms(2)])
  then have in01: "a \<in> {0, 1}" "b \<in> {0, 1}" "c \<in> {0, 1}" "d \<in> {0, 1}" "e \<in> {0, 1}" "f \<in> {0, 1}"
    by (simp_all add: l)
  have v: "conv_init_state DEFAULT_CONV True bits = 32 * a + 16 * b + 8 * c + 4 * d + 2 * e + f"
    unfolding conv_init_state_def memory_DEFAULT_CONV Let_def l seed_fold_value [OF in01]
    using assms(1) by (simp only: simp_thms if_True)
  show "state_bits (conv_init_state DEFAULT_CONV True bits) = py_last 6 bits"
    unfolding v l by (rule state_bits_seed [OF in01])
  show "0 \<le> conv_init_state DEFAULT_CONV True bits"
    unfolding v by (rule state_bits_seed [OF in01])
  show "conv_init_state DEFAULT_CONV True bits < 64"
    unfolding v by (rule state_bits_seed [OF in01])
qed

lemma conv_init_state_only_last:
  assumes "6 \<le> length bits"
  shows "conv_init_state DEFAULT_CONV True (py_last 6 bits) = conv_init_state DEFAULT_CONV True bits"
  using assms by (simp add: conv_init_state_def memory_DEFAULT_CONV py_last_length py_last_idem)

text \<open>
  Claim C6, amended. Without tail biting, and with tail biting on an input of fewer than
  six bits, the initial state is zero (the guard \<open>tail_biting and bits.size >= m\<close>). With
  tail biting on an input of at least six bits, the initial state is a six-bit value seeded
  from the last six input bits: it depends on no other bit, and two inputs get the same
  initial state exactly when their last six bits agree. Which input bit lands in which
  register position is not part of this statement.
\<close>

theorem conv_init_state_seed:
  "(\<not> tail_biting \<or> length bits < 6 \<longrightarrow> conv_init_state DEFAULT_CONV tail_biting bits = 0) \<and>
   (6 \<le> length bits \<and> set bits \<subseteq> {0, 1} \<longrightarrow>
      conv_init_state DEFAULT_CONV True (py_last 6 bits) = conv_init_state DEFAULT_CONV True bits \<and>
      0 \<le> conv_init_state DEFAULT_CONV True bits \<and>
      conv_init_state DEFAULT_CONV True bits < 64 \<and>
      (6 \<le> length bits' \<and> set bits' \<subseteq> {0, 1} \<longrightarrow>
         (conv_init_state DEFAULT_CONV True bits' = conv_init_state DEFAULT_CONV True bits)
           = (py_last 6 bits' = py_last 6 bits)))"
proof (intro conjI impI)
  assume "\<not> tail_biting \<or> length bits < 6"
  then show "conv_init_state DEFAULT_CONV tail_biting bits = 0"
    by (auto simp: conv_init_state_def memory_DEFAULT_CONV)
next
  assume a: "6 \<le> length bits \<and> set bits \<subseteq> {0, 1}"
  then show "conv_init_state DEFAULT_CONV True (py_last 6 bits)
               = conv_init_state DEFAULT_CONV True bits"
    by (simp add: conv_init_state_only_last)
  from a show "0 \<le> conv_init_state DEFAULT_CONV True bits"
    by (simp add: conv_init_state_last)
  from a show "conv_init_state DEFAULT_CONV True bits < 64"
    by (simp add: conv_init_state_last)
  assume b: "6 \<le> length bits' \<and> set bits' \<subseteq> {0, 1}"
  show "(conv_init_state DEFAULT_CONV True bits' = conv_init_state DEFAULT_CONV True bits)
          = (py_last 6 bits' = py_last 6 bits)"
  proof
    assume "conv_init_state DEFAULT_CONV True bits' = conv_init_state DEFAULT_CONV True bits"
    then have "state_bits (conv_init_state DEFAULT_CONV True bits')
                 = state_bits (conv_init_state DEFAULT_CONV True bits)"
      by simp
    then show "py_last 6 bits' = py_last 6 bits"
      using a b by (simp add: conv_init_state_last)
  next
    assume "py_last 6 bits' = py_last 6 bits"
    then have "conv_init_state DEFAULT_CONV True (py_last 6 bits')
                 = conv_init_state DEFAULT_CONV True (py_last 6 bits)"
      by simp
    then show "conv_init_state DEFAULT_CONV True bits' = conv_init_state DEFAULT_CONV True bits"
      using a b by (simp add: conv_init_state_only_last)
  qed
qed

theorem conv_init_state_seed_witness:
  "conv_init_state DEFAULT_CONV True [1, 1, 1] = 0 \<and>
   conv_init_state DEFAULT_CONV False [1, 0, 1, 1, 0, 0, 1] = 0 \<and>
   conv_init_state DEFAULT_CONV True [0, 0, 1, 1, 0, 0, 1]
     = conv_init_state DEFAULT_CONV True [1, 0, 1, 1, 0, 0, 1] \<and>
   conv_init_state DEFAULT_CONV True [1, 0, 1, 1, 0, 0, 1] < 64"
  using conv_init_state_seed [of True "[1, 1, 1]"]
    conv_init_state_seed [of False "[1, 0, 1, 1, 0, 0, 1]"]
    conv_init_state_seed [of True "[1, 0, 1, 1, 0, 0, 1]" "[0, 0, 1, 1, 0, 0, 1]"]
  by (simp add: py_last_def)

text \<open>
  Claim C6 as written asks, for every input, for a state seeded from the last six bits with
  the last bit in the top position. For \<open>[1, 0, 0, 0, 0, 0]\<close> that state is 1, and the
  code starts from 32; for the three-bit input \<open>[1, 1, 1]\<close> the code starts from 0.
\<close>

theorem conv_init_state_counterexample:
  "conv_init_state DEFAULT_CONV True [1, 0, 0, 0, 0, 0] = 32 \<and>
   claimed_init_state [1, 0, 0, 0, 0, 0] = 1 \<and>
   conv_init_state DEFAULT_CONV True [1, 1, 1] = 0 \<and>
   claimed_init_state [1, 1, 1] = 56"
  by (simp add: conv_init_state_def claimed_init_state_def memory_DEFAULT_CONV py_last_def
      upt_conv_Cons)

text \<open>
  The register after the six bits \<open>[1, 0, 0, 0, 0, 0]\<close> have been shifted in is 1, not
  the 32 it started from: the trellis of this input does not close on itself.
\<close>

lemma tail_biting_state_mismatch:
  "fold (\<lambda>b s. conv_next 6 s b) [1, 0, 0, 0, 0, 0]
     (conv_init_state DEFAULT_CONV True [1, 0, 0, 0, 0, 0]) = 1"
  by (simp add: conv_init_state_def memory_DEFAULT_CONV py_last_def conv_next_def upt_conv_Cons)


section \<open>Properties of the cyclic prefix\<close>

lemma concat_blocks_length:
  "(\<And>i. i < n \<Longrightarrow> length (f i) = L) \<Longrightarrow> length (concat (map f [0..<n])) = n * L"
  by (induction n) simp_all

lemma concat_blocks_slice:
  assumes "\<And>i. i < n \<Longrightarrow> length (f i) = L" and "i < n"
  shows "py_slice (concat (map f [0..<n])) (i * L) ((i + 1) * L) = f i"
  using assms
proof (induction n)
  case 0
  then show ?case by simp
next
  case (Suc n)
  have len: "length (concat (map f [0..<n])) = n * L"
    using Suc.prems(1) by (simp add: concat_blocks_length)
  show ?case
  proof (cases "i < n")
    case True
    then have "Suc i \<le> n" by simp
    then have "Suc i * L \<le> n * L" by (rule mult_le_mono1)
    then have "i * L + L \<le> n * L" by simp
    moreover have "py_slice (concat (map f [0..<n])) (i * L) ((i + 1) * L) = f i"
      using Suc.IH Suc.prems(1) True by simp
    ultimately show ?thesis
      using len by (simp add: py_slice_def)
  next
    case False
    with Suc.prems(2) have "i = n" by simp
    then show ?thesis
      using len Suc.prems(1) [of n] by (simp add: py_slice_def)
  qed
qed

lemma concat_slices:
  "concat (map (\<lambda>i. py_slice xs (i * L) ((i + 1) * L)) [0..<n]) = take (n * L) xs"
proof (induction n)
  case 0
  then show ?case by simp
next
  case (Suc n)
  have "take (n * L) xs @ take L (drop (n * L) xs) = take (n * L + L) xs"
    by (simp add: take_add)
  then show ?case
    using Suc by (simp add: py_slice_def add.commute)
qed

text \<open>
  When the prefix is not empty (\<open>1 \<le> n_fft * cp_ratio\<close>, so \<open>cp_len \<ge> 1\<close>), removal
  undoes insertion and \<open>cp_len < n_fft\<close>.
\<close>

lemma cyclic_prefix_roundtrip:
  assumes len: "length signal = num_blocks * n_fft"
    and ratio: "0 < cp_ratio" "cp_ratio < 1"
    and one: "1 \<le> real n_fft * cp_ratio"
  shows "remove_cyclic_prefix (fst (add_cyclic_prefix signal num_blocks n_fft cp_ratio)) n_fft
           (snd (add_cyclic_prefix signal num_blocks n_fft cp_ratio)) = Inr signal
         \<and> snd (add_cyclic_prefix signal num_blocks n_fft cp_ratio) < int n_fft"
proof -
  define c where "c = py_int (real n_fft * cp_ratio)"
  define k where "k = nat c"
  define block where "block = (\<lambda>i. py_slice signal (i * n_fft) ((i + 1) * n_fft))"
  define framed where "framed = (\<lambda>i. py_slice_from (- c) (block i) @ block i)"
  have c_floor: "c = \<lfloor>real n_fft * cp_ratio\<rfloor>"
    using one by (simp add: c_def py_int_def)
  have c_pos: "1 \<le> c"
    using one by (simp add: c_floor le_floor_iff)
  have "real n_fft * cp_ratio < real n_fft"
    using ratio one by (cases "n_fft = 0") simp_all
  then have c_lt: "c < int n_fft"
    by (simp add: c_floor floor_less_iff)
  have k: "int k = c" "0 < k" "k < n_fft"
    using c_pos c_lt by (simp_all add: k_def)
  have add: "add_cyclic_prefix signal num_blocks n_fft cp_ratio
               = (concat (map framed [0..<num_blocks]), c)"
    by (simp add: add_cyclic_prefix_def c_def framed_def block_def Let_def)
  have block_len: "length (block i) = n_fft" if "i < num_blocks" for i
  proof -
    from that have "Suc i \<le> num_blocks" by simp
    then have "Suc i * n_fft \<le> num_blocks * n_fft" by (rule mult_le_mono1)
    then show ?thesis
      using len by (simp add: block_def py_slice_def)
  qed
  have framed_len: "length (framed i) = k + n_fft" if "i < num_blocks" for i
    using block_len [OF that] k c_pos
    by (simp add: framed_def py_slice_from_def k_def)
  have strip: "py_slice_from c (framed i) = block i" if "i < num_blocks" for i
    using block_len [OF that] k c_pos
    by (simp add: framed_def py_slice_from_def k_def)
  have bl: "int n_fft + c = int (k + n_fft)"
    using k by simp
  have total: "length (concat (map framed [0..<num_blocks])) = num_blocks * (k + n_fft)"
    using framed_len by (rule concat_blocks_length)
  have pos: "0 < k + n_fft"
    using k(2) by simp
  then have "int (num_blocks * (k + n_fft)) div int (k + n_fft) = int num_blocks"
    unfolding zdiv_int [symmetric] by simp
  then have nb: "nat (int (num_blocks * (k + n_fft)) div int (k + n_fft)) = num_blocks"
    by simp
  have "remove_cyclic_prefix (concat (map framed [0..<num_blocks])) n_fft c
          = Inr (concat (map (\<lambda>i. py_slice_from c
                   (py_slice (concat (map framed [0..<num_blocks])) (i * (k + n_fft))
                      ((i + 1) * (k + n_fft)))) [0..<num_blocks]))"
    unfolding remove_cyclic_prefix_def bl total Let_def nb nat_int using pos by auto
  also have "\<dots> = Inr (concat (map block [0..<num_blocks]))"
  proof -
    have each: "py_slice_from c
          (py_slice (concat (map framed [0..<num_blocks])) (i * (k + n_fft))
             ((i + 1) * (k + n_fft))) = block i" if "i < num_blocks" for i
    proof -
      have "py_slice (concat (map framed [0..<num_blocks])) (i * (k + n_fft))
             ((i + 1) * (k + n_fft)) = framed i"
        using framed_len that by (rule concat_blocks_slice)
      then show ?thesis
        by (simp only: strip [OF that])
    qed
    have "map (\<lambda>i. py_slice_from c
                (py_slice (concat (map framed [0..<num_blocks])) (i * (k + n_fft))
                   ((i + 1) * (k + n_fft)))) [0..<num_blocks] = map block [0..<num_blocks]"
      by (rule map_cong [OF refl]) (rule each, simp)
    then show ?thesis
      by (simp only:)
  qed
  also have "\<dots> = Inr signal"
  proof -
    have "concat (map block [0..<num_blocks]) = take (num_blocks * n_fft) signal"
      unfolding block_def by (rule concat_slices)
    then show ?thesis
      using len by simp
  qed
  finally show ?thesis
    using c_lt by (simp add: add)
qed

text \<open>
  Claim C3 says that for every signal of length \<open>num_blocks * n_fft\<close> and every
  \<open>cp_ratio\<close> strictly between 0 and 1, removing the cyclic prefix after adding it gives
  the signal back. The code does not do this when \<open>n_fft * cp_ratio < 1\<close>: then
  \<open>cp_len = 0\<close>, and \<open>block[-cp_len:]\<close> is \<open>block[0:]\<close>, the whole block, so every block
  is written twice while the reported \<open>cp_len\<close> is 0. For one block of four samples and
  \<open>cp_ratio = 1/8\<close> the round trip returns eight samples.
\<close>

theorem cyclic_prefix_roundtrip_fails:
  "remove_cyclic_prefix (fst (add_cyclic_prefix [1, 2, 3, 4 :: complex] 1 4 (1 / 8))) 4
     (snd (add_cyclic_prefix [1, 2, 3, 4 :: complex] 1 4 (1 / 8)))
   = Inr [1, 2, 3, 4, 1, 2, 3, 4]"
  by (simp add: add_cyclic_prefix_def remove_cyclic_prefix_def py_slice_def py_slice_from_def
      py_int_def upt_conv_Cons)

text \<open>What \<open>add_cyclic_prefix\<close> returns on that input.\<close>

lemma add_cyclic_prefix_zero_len:
  "add_cyclic_prefix [1, 2, 3, 4 :: complex] 1 4 (1 / 8) = ([1, 2, 3, 4, 1, 2, 3, 4], 0)"
  by (simp add: add_cyclic_prefix_def py_slice_def py_slice_from_def py_int_def)


section \<open>Properties of the equaliser\<close>

lemma dft_length: "length (dft a) = length a"
  by (simp add: dft_def)

lemma concat_replicate_nth:
  assumes "i < r * length A"
  shows "concat (replicate r A) ! i = A ! (i mod length A)"
  using assms
proof (induction r arbitrary: i)
  case 0
  then show ?case by simp
next
  case (Suc r)
  show ?case
  proof (cases "i < length A")
    case True
    then show ?thesis by (simp add: nth_append)
  next
    case False
    with Suc.prems have "i - length A < r * length A" by simp
    then have "concat (replicate r A) ! (i - length A) = A ! ((i - length A) mod length A)"
      by (rule Suc.IH)
    moreover have "(i - length A) mod length A = i mod length A"
      using False by (simp add: le_mod_geq)
    ultimately show ?thesis
      using False by (simp add: nth_append)
  qed
qed

lemma concat_replicate_length: "length (concat (replicate r A)) = r * length A"
  by (induction r) simp_all

lemma map2_nth:
  "length xs = length ys \<Longrightarrow> map2 f xs ys = map (\<lambda>i. f (xs ! i) (ys ! i)) [0..<length xs]"
  by (rule nth_equalityI) simp_all

text \<open>
  For \<open>0 < nc < n_fft\<close> the equaliser never raises, whatever the lengths of \<open>rx\<close> and
  \<open>h\<close>; an \<open>h\<close> longer than \<open>n_fft\<close> is cropped by \<open>np.fft.fft\<close>.
\<close>

lemma equalize_channel_general:
  assumes nc: "0 < nc" "nc < n_fft"
  shows "equalize_channel rx h n_fft nc
           = Inr (map (\<lambda>i. rx ! i
                    / clamp (dft (take n_fft h @ replicate (n_fft - length h) 0) ! (1 + i mod nc)))
                  [0..<length rx])"
proof -
  define H where "H = dft (take n_fft h @ replicate (n_fft - length h) 0)"
  define D where "D = map clamp (py_slice H 1 (nc + 1))"
  define T where "T = take (length rx) (concat (replicate (length rx div nc + 1) D))"
  have fft: "np_fft h n_fft = Inr H"
    using nc by (simp add: np_fft_def H_def)
  have lenH: "length H = n_fft"
    by (simp add: H_def dft_length)
  have lenD: "length D = nc"
    using nc lenH by (simp add: D_def py_slice_def)
  have nthD: "D ! k = clamp (H ! (1 + k))" if "k < nc" for k
    using that nc lenH by (simp add: D_def py_slice_def)
  have enough: "length rx < (length rx div nc + 1) * nc"
    using nc(1) by (simp add: dividend_less_times_div mult.commute)
  have lenT: "length T = length rx"
    using enough by (simp add: T_def concat_replicate_length lenD)
  have nthT: "T ! i = clamp (H ! (1 + i mod nc))" if "i < length rx" for i
  proof -
    have "i < (length rx div nc + 1) * length D"
      using that enough by (simp add: lenD)
    then have "concat (replicate (length rx div nc + 1) D) ! i = D ! (i mod length D)"
      by (rule concat_replicate_nth)
    moreover have "T ! i = concat (replicate (length rx div nc + 1) D) ! i"
      unfolding T_def using that by (rule nth_take)
    moreover have "D ! (i mod nc) = clamp (H ! (1 + i mod nc))"
      using nc(1) by (intro nthD) simp
    ultimately show ?thesis
      by (simp only: lenD)
  qed
  have "equalize_channel rx h n_fft nc = np_divide rx T"
    using nc(1) by (simp add: equalize_channel_def fft D_def T_def Let_def)
  also have "\<dots> = Inr (map2 (/) rx T)"
    using lenT by (simp add: np_divide_def)
  also have "map2 (/) rx T = map (\<lambda>i. rx ! i / T ! i) [0..<length rx]"
    using lenT by (simp add: map2_nth)
  also have "\<dots> = map (\<lambda>i. rx ! i / clamp (H ! (1 + i mod nc))) [0..<length rx]"
    by (rule map_cong [OF refl]) (simp add: nthT)
  finally show ?thesis
    by (simp add: H_def)
qed

text \<open>
  Claim C7. For every \<open>rx\<close>, every impulse response \<open>h\<close> of at most \<open>n_fft\<close> taps and
  every \<open>0 < nc < n_fft\<close>, \<open>equalize_channel\<close> returns without error the array whose
  \<open>i\<close>-th entry is \<open>rx[i]\<close> divided by the clamped value of \<open>H\<close> at index
  \<open>1 + (i mod nc)\<close>, where \<open>H\<close> is the transform of \<open>h\<close> padded with zeros to \<open>n_fft\<close>
  and clamping replaces a value of magnitude below \<open>1e-10\<close> by \<open>1e-10\<close>. The divisor
  depends on \<open>i mod nc\<close> only: it is the same in every block. (Complex arithmetic is
  exact here; the rounding of doubles is not represented.)
\<close>

theorem equalize_channel_correct:
  assumes "0 < nc" "nc < n_fft" "length h \<le> n_fft"
  shows "equalize_channel rx h n_fft nc
           = Inr (map (\<lambda>i. rx ! i / clamp (dft (h @ replicate (n_fft - length h) 0) ! (1 + i mod nc)))
                  [0..<length rx])
         \<and> (\<forall>z. clamp z = (if cmod z < 1 / 10 ^ 10 then complex_of_real (1 / 10 ^ 10) else z))"
  using equalize_channel_general [OF assms(1,2), of rx h] assms(3)
  by (simp add: clamp_def threshold_def)

lemma dft_unit_impulse: "dft [1, 0, 0, 0] = [1, 1, 1, 1]"
  by (simp add: dft_def upt_conv_Cons)

theorem equalize_channel_correct_witness:
  "equalize_channel [2, 4, 6] [1] 4 2 = Inr [2, 4, 6]"
proof -
  have "(0 :: nat) < 2" "(2 :: nat) < 4" "length [1 :: complex] \<le> 4"
    by simp_all
  from equalize_channel_correct [OF this, of "[2, 4, 6]"] show ?thesis
    by (simp add: dft_unit_impulse clamp_def threshold_def upt_conv_Cons eval_nat_numeral)
qed


section \<open>Properties of the scrambler\<close>

lemma map2_xor_cancel:
  "length xs = length ys \<Longrightarrow> map2 (XOR) (map2 (XOR) xs ys) ys = (xs :: int list)"
  by (induction xs ys rule: list_induct2) (simp_all add: xor.assoc)

text \<open>
  Claim C4. For every bit array \<open>b\<close> and every seed \<open>s\<close>, scrambling twice with the same
  seed gives \<open>b\<close> back, whatever the generator state at either call. The one fact about
  numpy used is that \<open>randint(0, 2, n)\<close> returns \<open>n\<close> values.
\<close>

theorem apply_scrambling_involution:
  assumes "\<And>st n. length (fst (randint st n)) = n"
  shows "fst (apply_scrambling seed_fn randint
                (fst (apply_scrambling seed_fn randint b s st)) s st') = b"
proof -
  define seq where "seq = fst (randint (seed_fn s) (length b))"
  have len: "length seq = length b"
    using assms by (simp add: seq_def)
  have first: "fst (apply_scrambling seed_fn randint b s st) = map2 (XOR) b seq"
    by (simp add: apply_scrambling_def seq_def split_beta Let_def)
  have "length (map2 (XOR) b seq) = length b"
    using len by simp
  then have "fst (apply_scrambling seed_fn randint (map2 (XOR) b seq) s st')
               = map2 (XOR) (map2 (XOR) b seq) seq"
    by (simp add: apply_scrambling_def seq_def split_beta Let_def)
  then show ?thesis
    using len by (simp add: first map2_xor_cancel)
qed

theorem apply_scrambling_involution_witness:
  "fst (apply_scrambling unat (\<lambda>st n. (map (\<lambda>i. int ((st + i) mod 2)) [0..<n], st + n))
         (fst (apply_scrambling unat (\<lambda>st n. (map (\<lambda>i. int ((st + i) mod 2)) [0..<n], st + n))
                 [1, 0, 1, 1] 2024 7)) 2024 9) = [1, 0, 1, 1]"
  using apply_scrambling_involution
    [of "\<lambda>st n. (map (\<lambda>i. int ((st + i) mod 2)) [0..<n], st + n)" unat "[1, 0, 1, 1]" 2024 7 9]
  by simp

text \<open>
  Claim C10. A call of \<open>apply_scrambling\<close> leaves the global generator in the state it
  found it in, so any draw made after the call is the draw that would have been made
  without it.
\<close>

theorem apply_scrambling_restores_state:
  "snd (apply_scrambling seed_fn randint bits seed st) = st \<and>
   randint (snd (apply_scrambling seed_fn randint bits seed st)) n = randint st n"
  by (simp add: apply_scrambling_def split_beta Let_def)

text \<open>A run with a toy generator whose state is a counter.\<close>

lemma apply_scrambling_example:
  "apply_scrambling unat (\<lambda>st n. (map (\<lambda>i. int ((st + i) mod 2)) [0..<n], st + n))
     [1, 0, 1, 1] 2024 7 = ([1, 1, 1, 0], 7)"
  by (simp add: apply_scrambling_def upt_conv_Cons)


section \<open>Properties of the channel impulse response\<close>

lemma energy_scaled:
  "(\<Sum>x\<leftarrow>map (\<lambda>x. complex_of_real (x / r)) h. (cmod x)\<^sup>2) = (\<Sum>y\<leftarrow>h. \<bar>y\<bar>\<^sup>2) / r\<^sup>2"
  by (induction h) (simp_all add: add_divide_distrib power_divide norm_divide)

lemma energy_nonneg: "0 \<le> (\<Sum>y\<leftarrow>h. \<bar>y\<bar>\<^sup>2)" for h :: "real list"
  by (induction h) simp_all

lemma energy_normalised:
  assumes "0 < (\<Sum>y\<leftarrow>h. \<bar>y\<bar>\<^sup>2)"
  shows "(\<Sum>x\<leftarrow>map (\<lambda>x. complex_of_real (x / sqrt (\<Sum>y\<leftarrow>h. \<bar>y\<bar>\<^sup>2))) h. (cmod x)\<^sup>2) = 1"
proof -
  have "(sqrt (\<Sum>y\<leftarrow>h. \<bar>y\<bar>\<^sup>2))\<^sup>2 = (\<Sum>y\<leftarrow>h. \<bar>y\<bar>\<^sup>2)"
    using assms by (intro real_sqrt_pow2) simp
  then show ?thesis
    unfolding energy_scaled using assms by (simp only: divide_self_if) simp
qed

lemma base_h_prefix:
  assumes "2 \<le> num_taps" "num_taps \<le> 10"
  shows "\<exists>t. py_slice_to num_taps base_h = 1 # t \<and> length (py_slice_to num_taps base_h) = nat num_taps"
proof -
  obtain k where k: "nat num_taps = Suc k"
    using assms(1) by (cases "nat num_taps") simp_all
  from assms k have "k \<le> 9" by linarith
  then have "min 9 k = k" by simp
  then show ?thesis
    using assms by (simp add: py_slice_to_def base_h_def k eval_nat_numeral)
qed

text \<open>
  Claim C9. For every \<open>num_taps \<ge> 1\<close> the impulse response has \<open>num_taps\<close> entries and
  unit energy, and it is \<open>[1]\<close> when \<open>num_taps = 1\<close>. The energy is computed over the real
  numbers: the statement is about the normalisation \<open>h / sqrt(sum(|h|^2))\<close> as a formula,
  not about the last bits of its double-precision value.
\<close>

theorem apply_rayleigh_h_unit_energy:
  assumes "1 \<le> num_taps"
  shows "length (apply_rayleigh_h num_taps) = nat num_taps \<and>
         (\<Sum>x\<leftarrow>apply_rayleigh_h num_taps. (cmod x)\<^sup>2) = 1 \<and>
         (num_taps = 1 \<longrightarrow> apply_rayleigh_h num_taps = [1])"
proof (cases "num_taps = 1")
  case True
  then show ?thesis by (simp add: apply_rayleigh_h_def)
next
  case False
  with assms have two: "2 \<le> num_taps" by simp
  define h where "h = (if num_taps \<le> int (length base_h) then py_slice_to num_taps base_h
                        else base_h @ replicate (nat (num_taps - int (length base_h))) 0)"
  have eq: "apply_rayleigh_h num_taps
              = map (\<lambda>x. complex_of_real (x / sqrt (\<Sum>y\<leftarrow>h. \<bar>y\<bar>\<^sup>2))) h"
    using False by (simp add: apply_rayleigh_h_def h_def Let_def)
  have shape: "(\<exists>t. h = 1 # t) \<and> length h = nat num_taps"
  proof (cases "num_taps \<le> 10")
    case True
    with two base_h_prefix [of num_taps] show ?thesis
      by (simp add: h_def base_h_def)
  next
    case False
    then show ?thesis
      by (simp add: h_def base_h_def)
  qed
  then obtain t where t: "h = 1 # t" by blast
  have "0 < (\<Sum>y\<leftarrow>h. \<bar>y\<bar>\<^sup>2)"
    using energy_nonneg [of t] by (simp add: t)
  then have "(\<Sum>x\<leftarrow>apply_rayleigh_h num_taps. (cmod x)\<^sup>2) = 1"
    unfolding eq by (rule energy_normalised)
  then show ?thesis
    using False shape by (simp add: eq)
qed

theorem apply_rayleigh_h_unit_energy_witness:
  "length (apply_rayleigh_h 3) = 3 \<and> (\<Sum>x\<leftarrow>apply_rayleigh_h 3. (cmod x)\<^sup>2) = 1 \<and>
   length (apply_rayleigh_h 1) = 1 \<and> apply_rayleigh_h 1 = [1] \<and>
   length (apply_rayleigh_h 12) = 12 \<and> (\<Sum>x\<leftarrow>apply_rayleigh_h 12. (cmod x)\<^sup>2) = 1"
  using apply_rayleigh_h_unit_energy [of 3] apply_rayleigh_h_unit_energy [of 1]
    apply_rayleigh_h_unit_energy [of 12]
  by simp


section \<open>The decoder on an error-free codeword\<close>

subsection \<open>The trellis\<close>

text \<open>
  The trellis has 64 states. Facts about all of them are checked state by state and then
  used in arithmetic form.
\<close>

lemma states_enum: "{0..63 :: int} = set (0 # 1 # [2..63])"
proof -
  have "[0..63] = 0 # [0 + 1..63 :: int]"
    by (rule upto_rec1) simp
  moreover have "[1..63] = 1 # [1 + 1..63 :: int]"
    by (rule upto_rec1) simp
  ultimately have "set [0..63 :: int] = set (0 # 1 # [2..63])"
    by simp
  then show ?thesis
    by (simp only: set_upto)
qed

lemma for_all_states:
  assumes "list_all P (0 # 1 # [2..63])" and "0 \<le> s" and "s < 64"
  shows "P (s :: int)"
proof -
  from assms(2,3) have "s \<in> {0..63}" by simp
  then have "s \<in> set (0 # 1 # [2..63])" by (simp only: states_enum)
  with assms(1) show ?thesis by (simp only: list_all_iff)
qed

lemma conv_next_arith:
  assumes "0 \<le> s" "s < 64" "u \<in> {0, 1}"
  shows "conv_next 6 s u = 32 * u + s div 2"
proof -
  have "list_all (\<lambda>s. \<forall>u \<in> {0, 1}. conv_next 6 s u = 32 * u + s div 2) (0 # 1 # [2..63])"
    by (simp add: conv_next_def)
  from for_all_states [OF this assms(1,2)] assms(3) show ?thesis by blast
qed

lemma u_for_state_arith:
  assumes "0 \<le> s" "s < 64"
  shows "u_for_state 6 s = s div 32"
proof -
  have "list_all (\<lambda>s. u_for_state 6 s = s div 32) (0 # 1 # [2..63])"
    by (simp add: u_for_state_def)
  from for_all_states [OF this assms] show ?thesis .
qed

lemma p0_arith:
  assumes "0 \<le> s" "s < 64"
  shows "p0 6 s = 2 * (s mod 32)"
proof -
  have "list_all (\<lambda>s. p0 6 s = 2 * (s mod 32)) (0 # 1 # [2..63])"
    by (simp add: p0_def)
  from for_all_states [OF this assms] show ?thesis .
qed

lemma p1_arith:
  assumes "0 \<le> s" "s < 64"
  shows "p1 6 s = 2 * (s mod 32) + 1"
proof -
  have "list_all (\<lambda>s. p1 6 s = 2 * (s mod 32) + 1) (0 # 1 # [2..63])"
    by (simp add: p1_def p0_def)
  from for_all_states [OF this assms] show ?thesis .
qed

text \<open>
  All three generators are odd, so two states that differ in the oldest register bit give
  complementary output triples for the same input.
\<close>

lemma conv_out_complement:
  assumes "0 \<le> q" "q < 32" "u \<in> {0, 1}"
  shows "conv_out 6 [91, 121, 117] (2 * q + 1) u
           = map (\<lambda>x. 1 - x) (conv_out 6 [91, 121, 117] (2 * q) u)"
proof -
  have "list_all (\<lambda>q. q < 32 \<longrightarrow> (\<forall>u \<in> {0, 1}. conv_out 6 [91, 121, 117] (2 * q + 1) u
           = map (\<lambda>x. 1 - x) (conv_out 6 [91, 121, 117] (2 * q) u))) (0 # 1 # [2..63])"
    by (simp add: conv_out_def bit_count.simps)
  from for_all_states [OF this assms(1)] assms(2,3) show ?thesis by auto
qed

text \<open>Six zero inputs bring every state to zero.\<close>

lemma flush_to_zero:
  assumes "0 \<le> s" "s < 64"
  shows "fold (\<lambda>u state. conv_next 6 state u) (replicate 6 0) s = 0"
proof -
  have "list_all (\<lambda>s. fold (\<lambda>u state. conv_next 6 state u) [0, 0, 0, 0, 0, 0] s = 0)
          (0 # 1 # [2..63])"
    by (simp add: conv_next_def)
  from for_all_states [OF this assms] show ?thesis
    by (simp add: eval_nat_numeral)
qed

lemma conv_out_length3: "length (conv_out m [91, 121, 117] s u) = 3"
  by (simp add: conv_out_def Let_def)

lemma conv_out_bit: "j < 3 \<Longrightarrow> conv_out m [91, 121, 117] s u ! j \<in> {0, 1}"
  by (auto simp: conv_out_def Let_def and_one_eq less_Suc_eq eval_nat_numeral)

lemma TRELLIS_OUT_lookup:
  assumes "0 \<le> p" "p < 64" "u \<in> {0, 1}"
  shows "TRELLIS_OUT ! nat p ! nat u = conv_out 6 [91, 121, 117] p u"
proof -
  have "nat p < 64"
    using assms by simp
  then have "TRELLIS_OUT ! nat p
               = map (\<lambda>u. map (\<lambda>g. bit_count ((push_bit 6 u OR int (nat p)) AND g) AND 1)
                              [91, 121, 117]) [0, 1]"
    by (simp add: TRELLIS_OUT_def build_trellis_def Let_def generators_DEFAULT_CONV
        memory_DEFAULT_CONV n_states_DEFAULT_CONV)
  then show ?thesis
    using assms by (auto simp: conv_out_def Let_def)
qed


subsection \<open>Branch distances and the encoder's path\<close>

text \<open>Branch distances between output triples.\<close>

lemma bits3_cases:
  assumes "length out = 3" "\<And>j. j < 3 \<Longrightarrow> out ! j \<in> {0, 1 :: int}"
  shows "\<exists>a b c. out = [a, b, c] \<and> a \<in> {0, 1} \<and> b \<in> {0, 1} \<and> c \<in> {0, 1}"
proof -
  from assms(1) obtain a b c where o: "out = [a, b, c]"
    by (auto simp: length_Suc_conv eval_nat_numeral)
  from assms(2) [of 0] assms(2) [of 1] assms(2) [of 2] show ?thesis
    by (simp add: o)
qed

lemma branch_dist_same:
  assumes "length out = 3" "\<And>j. j < 3 \<Longrightarrow> out ! j \<in> {0, 1}"
  shows "branch_dist out (out ! 0) (out ! 1) (out ! 2) = 0"
  by (simp add: branch_dist_def)

lemma branch_dist_complement:
  assumes "length out = 3" "\<And>j. j < 3 \<Longrightarrow> out ! j \<in> {0, 1}"
  shows "branch_dist out (1 - out ! 0) (1 - out ! 1) (1 - out ! 2) = 3"
proof -
  from bits3_cases [OF assms] obtain a b c
    where "out = [a, b, c]" "a \<in> {0, 1}" "b \<in> {0, 1}" "c \<in> {0, 1}"
    by blast
  then show ?thesis
    by (auto simp: branch_dist_def)
qed

lemma branch_dist_range:
  assumes "length out = 3" "\<And>j. j < 3 \<Longrightarrow> out ! j \<in> {0, 1}"
    and "y0 \<in> {0, 1}" "y1 \<in> {0, 1}" "y2 \<in> {0, 1}"
  shows "0 \<le> branch_dist out y0 y1 y2 \<and> branch_dist out y0 y1 y2 \<le> 3"
proof -
  from bits3_cases [OF assms(1,2)] obtain a b c
    where "out = [a, b, c]" "a \<in> {0, 1}" "b \<in> {0, 1}" "c \<in> {0, 1}"
    by blast
  with assms(3-5) show ?thesis
    by (auto simp: branch_dist_def)
qed

text \<open>The path of the encoder and the coded bits along it.\<close>

lemma enc_state_0: "enc_state s w 0 = s"
  by (simp add: enc_state_def)

lemma enc_state_Suc:
  "t < length w \<Longrightarrow> enc_state s w (Suc t) = conv_next 6 (enc_state s w t) (w ! t)"
  by (simp add: enc_state_def take_Suc_conv_app_nth)

lemma enc_state_Cons: "enc_state s (b # w) (Suc t) = enc_state (conv_next 6 s b) w t"
  by (simp add: enc_state_def)

lemma enc_state_range:
  assumes "set w \<subseteq> {0, 1}" "0 \<le> s" "s < 64" "t \<le> length w"
  shows "0 \<le> enc_state s w t \<and> enc_state s w t < 64"
  using assms(4)
proof (induction t)
  case 0
  with assms(2,3) show ?case by (simp add: enc_state_0)
next
  case (Suc t)
  then have t: "t < length w" and IH: "0 \<le> enc_state s w t" "enc_state s w t < 64"
    by simp_all
  from t assms(1) have u: "w ! t \<in> {0, 1}"
    using nth_mem by blast
  have "enc_state s w (Suc t) = 32 * (w ! t) + enc_state s w t div 2"
    by (simp only: enc_state_Suc [OF t] conv_next_arith [OF IH u])
  with IH u show ?case by auto
qed

lemma enc_state_append:
  "enc_state s (w @ v) (length w + t) = enc_state (enc_state s w (length w)) v t"
  by (simp add: enc_state_def)

lemma conv_encode_loop_nth:
  assumes "t < length w" "j < 3"
  shows "conv_encode_loop 6 [91, 121, 117] s w ! (3 * t + j)
           = conv_out 6 [91, 121, 117] (enc_state s w t) (w ! t) ! j"
  using assms(1)
proof (induction w arbitrary: s t)
  case Nil
  then show ?case by simp
next
  case (Cons b w)
  show ?case
  proof (cases t)
    case 0
    with assms(2) show ?thesis
      by (simp add: nth_append conv_out_length3 enc_state_0)
  next
    case (Suc t')
    with Cons.prems have t': "t' < length w" by simp
    have "3 * t + j = 3 + (3 * t' + j)"
      by (simp add: Suc)
    then have "conv_encode_loop 6 [91, 121, 117] s (b # w) ! (3 * t + j)
                 = conv_encode_loop 6 [91, 121, 117] (conv_next 6 s b) w ! (3 * t' + j)"
      by (simp add: nth_append conv_out_length3)
    also have "\<dots> = conv_out 6 [91, 121, 117] (enc_state (conv_next 6 s b) w t') (w ! t') ! j"
      by (rule Cons.IH [OF t'])
    finally show ?thesis
      by (simp add: Suc enc_state_Cons)
  qed
qed


subsection \<open>Arithmetic of states\<close>

lemma mod_double:
  fixes a :: int
  shows "a mod 2 ^ Suc k = 2 * (a div 2 mod 2 ^ k) + a mod 2"
  using zmod_zmult2_eq [of "2 ^ k" a 2] by simp

lemma agree_pred:
  fixes s' \<tau> u :: int
  assumes "1 \<le> j" "j \<le> 6"
    and "s' mod 2 ^ (6 - j) = (32 * u + \<tau> div 2) mod 2 ^ (6 - j)"
  shows "(2 * (s' mod 32) + \<tau> mod 2) mod 2 ^ (6 - (j - 1)) = \<tau> mod 2 ^ (6 - (j - 1))"
proof -
  define k where "k = 6 - j"
  have k: "6 - (j - 1) = Suc k" "k \<le> 5"
    using assms(1,2) by (simp_all add: k_def)
  have dvd: "(2 :: int) ^ k dvd 2 ^ 5"
    using k(2) by (rule le_imp_power_dvd)
  then have "(2 :: int) ^ k dvd 32 * u"
    by simp
  then have "(32 * u + \<tau> div 2) mod 2 ^ k = \<tau> div 2 mod 2 ^ k"
    by (metis dvd_imp_mod_0 mod_add_left_eq add_0)
  moreover have "s' mod 32 mod 2 ^ k = s' mod 2 ^ k"
    using dvd by (simp add: mod_mod_cancel)
  ultimately have q: "s' mod 32 mod 2 ^ k = \<tau> div 2 mod 2 ^ k"
    using assms(3) by (simp add: k_def)
  have "(2 * (s' mod 32) + \<tau> mod 2) div 2 = s' mod 32"
    by simp
  moreover have "(2 * (s' mod 32) + \<tau> mod 2) mod 2 = \<tau> mod 2"
    by simp
  ultimately have "(2 * (s' mod 32) + \<tau> mod 2) mod 2 ^ Suc k
      = 2 * (s' mod 32 mod 2 ^ k) + \<tau> mod 2"
    by (simp only: mod_double)
  also have "\<dots> = \<tau> mod 2 ^ Suc k"
    by (simp only: q mod_double [of \<tau> k])
  finally show ?thesis
    by (simp only: k)
qed

lemma wrap32_id: "- (2 ^ 31) \<le> x \<Longrightarrow> x < 2 ^ 31 \<Longrightarrow> wrap32 x = x"
  by (simp add: wrap32_def)


subsection \<open>One cell of the Viterbi recursion\<close>

lemma path_inv_bounds:
  assumes "path_inv M \<tau>" "0 \<le> s" "s < 64"
  shows "0 \<le> M ! nat s" and "M ! nat s \<le> INF_METRIC + 18"
proof -
  from assms(2,3) have s: "s \<in> {0..63}" by simp
  with assms(1) show "0 \<le> M ! nat s"
    unfolding path_inv_def by blast
  from assms(1) s have "\<forall>j \<le> 6. s mod 2 ^ (6 - j) = \<tau> mod 2 ^ (6 - j)
                        \<longrightarrow> M ! nat s \<le> INF_METRIC + 3 * int j"
    unfolding path_inv_def by blast
  then have "s mod 2 ^ (6 - 6) = \<tau> mod 2 ^ (6 - 6) \<longrightarrow> M ! nat s \<le> INF_METRIC + 3 * int 6"
    by blast
  then show "M ! nat s \<le> INF_METRIC + 18"
    by simp
qed

lemma cand_range:
  assumes "path_inv M \<tau>" and "y0 \<in> {0, 1}" "y1 \<in> {0, 1}" "y2 \<in> {0, 1}"
    and "0 \<le> p" "p < 64"
  shows "M ! nat p \<le> cand M y0 y1 y2 p u" and "cand M y0 y1 y2 p u \<le> M ! nat p + 3"
    and "0 \<le> cand M y0 y1 y2 p u" and "cand M y0 y1 y2 p u < 2 ^ 31"
proof -
  have d: "0 \<le> branch_dist (conv_out 6 [91, 121, 117] p u) y0 y1 y2
           \<and> branch_dist (conv_out 6 [91, 121, 117] p u) y0 y1 y2 \<le> 3"
    using conv_out_length3 conv_out_bit assms(2-4) by (rule branch_dist_range)
  from d show "M ! nat p \<le> cand M y0 y1 y2 p u" and le: "cand M y0 y1 y2 p u \<le> M ! nat p + 3"
    by (simp_all add: cand_def)
  from d path_inv_bounds(1) [OF assms(1,5,6)] show "0 \<le> cand M y0 y1 y2 p u"
    by (simp add: cand_def)
  from le path_inv_bounds(2) [OF assms(1,5,6)] show "cand M y0 y1 y2 p u < 2 ^ 31"
    by (simp add: INF_METRIC_def)
qed

lemma viterbi_cell_arith:
  assumes inv: "path_inv M \<tau>" and y: "y0 \<in> {0, 1}" "y1 \<in> {0, 1}" "y2 \<in> {0, 1}"
    and s: "0 \<le> s" "s < 64"
  shows "viterbi_cell 6 M y0 y1 y2 s =
     (if cand M y0 y1 y2 (2 * (s mod 32) + 1) (s div 32)
           < cand M y0 y1 y2 (2 * (s mod 32)) (s div 32)
      then (cand M y0 y1 y2 (2 * (s mod 32) + 1) (s div 32), 2 * (s mod 32) + 1)
      else (cand M y0 y1 y2 (2 * (s mod 32)) (s div 32), 2 * (s mod 32)))"
proof -
  define q where "q = s mod 32"
  define us where "us = s div 32"
  have q: "0 \<le> 2 * q" "2 * q < 64" "0 \<le> 2 * q + 1" "2 * q + 1 < 64"
    by (simp_all add: q_def)
  have us: "us \<in> {0, 1}"
    using s by (auto simp: us_def)
  have c0: "wrap32 (M ! nat (2 * q) + branch_dist (TRELLIS_OUT ! nat (2 * q) ! nat us) y0 y1 y2)
              = cand M y0 y1 y2 (2 * q) us"
    using cand_range(3,4) [OF inv y q(1,2), of us]
    by (simp add: TRELLIS_OUT_lookup [OF q(1,2) us] wrap32_id flip: cand_def)
  have c1: "wrap32 (M ! nat (2 * q + 1)
                + branch_dist (TRELLIS_OUT ! nat (2 * q + 1) ! nat us) y0 y1 y2)
              = cand M y0 y1 y2 (2 * q + 1) us"
    using cand_range(3,4) [OF inv y q(3,4), of us]
    by (simp add: TRELLIS_OUT_lookup [OF q(3,4) us] wrap32_id flip: cand_def)
  show ?thesis
    unfolding viterbi_cell_def Let_def p0_arith [OF s] p1_arith [OF s] u_for_state_arith [OF s]
    unfolding q_def [symmetric] us_def [symmetric] c0 c1
    by simp
qed


lemma conv_out_bits3:
  "conv_out 6 [91, 121, 117] s u ! 0 \<in> {0, 1}" "conv_out 6 [91, 121, 117] s u ! 1 \<in> {0, 1}"
  "conv_out 6 [91, 121, 117] s u ! 2 \<in> {0, 1}"
  by (rule conv_out_bit, simp)+

text \<open>
  The cell of the state the encoder moves to: its metric is 0 and the predecessor recorded
  for it is the state the encoder came from. If that state is the odd predecessor, the even
  one loses because its outputs are the complement of the received triple (distance 3); if
  it is the even one, a tie goes to it.
\<close>

lemma cell_on_path:
  assumes inv: "path_inv M \<tau>" and \<tau>: "0 \<le> \<tau>" "\<tau> < 64" and u: "u \<in> {0, 1}"
    and y: "y0 = conv_out 6 [91, 121, 117] \<tau> u ! 0" "y1 = conv_out 6 [91, 121, 117] \<tau> u ! 1"
      "y2 = conv_out 6 [91, 121, 117] \<tau> u ! 2"
  shows "viterbi_cell 6 M y0 y1 y2 (conv_next 6 \<tau> u) = (0, \<tau>)"
proof -
  define q where "q = \<tau> div 2"
  have nxt: "conv_next 6 \<tau> u = 32 * u + q"
    by (simp only: conv_next_arith [OF \<tau> u] q_def)
  have q: "0 \<le> q" "q < 32"
    using \<tau> by (simp_all add: q_def)
  have range: "0 \<le> 32 * u + q" "32 * u + q < 64"
    using q u by auto
  have md: "(32 * u + q) mod 32 = q" "(32 * u + q) div 32 = u"
    using q by simp_all
  have ybits: "y0 \<in> {0, 1}" "y1 \<in> {0, 1}" "y2 \<in> {0, 1}"
    unfolding y by (rule conv_out_bits3)+
  have M\<tau>: "M ! nat \<tau> = 0"
    using inv by (simp add: path_inv_def)
  have "branch_dist (conv_out 6 [91, 121, 117] \<tau> u) y0 y1 y2 = 0"
    unfolding y using conv_out_length3 conv_out_bit by (rule branch_dist_same)
  then have on: "cand M y0 y1 y2 \<tau> u = 0"
    by (simp add: cand_def M\<tau>)
  have cell: "viterbi_cell 6 M y0 y1 y2 (32 * u + q) =
     (if cand M y0 y1 y2 (2 * q + 1) u < cand M y0 y1 y2 (2 * q) u
      then (cand M y0 y1 y2 (2 * q + 1) u, 2 * q + 1)
      else (cand M y0 y1 y2 (2 * q) u, 2 * q))"
    using viterbi_cell_arith [OF inv ybits range] by (simp only: md)
  show ?thesis
  proof (cases "even \<tau>")
    case True
    then have \<tau>q: "2 * q = \<tau>"
      by (simp add: q_def)
    have "0 \<le> 2 * q + 1" "2 * q + 1 < 64"
      using q by simp_all
    from cand_range(3) [OF inv ybits this, of u]
    have "\<not> cand M y0 y1 y2 (2 * q + 1) u < cand M y0 y1 y2 \<tau> u"
      by (simp add: on)
    then show ?thesis
      by (simp add: nxt cell \<tau>q on)
  next
    case False
    then have \<tau>q: "2 * q + 1 = \<tau>"
      by (simp add: q_def odd_two_times_div_two_succ)
    have q2: "0 \<le> 2 * q" "2 * q < 64"
      using q by simp_all
    have compl: "conv_out 6 [91, 121, 117] \<tau> u
                   = map (\<lambda>x. 1 - x) (conv_out 6 [91, 121, 117] (2 * q) u)"
      unfolding \<tau>q [symmetric] using q u by (rule conv_out_complement)
    have "y0 = 1 - conv_out 6 [91, 121, 117] (2 * q) u ! 0"
         "y1 = 1 - conv_out 6 [91, 121, 117] (2 * q) u ! 1"
         "y2 = 1 - conv_out 6 [91, 121, 117] (2 * q) u ! 2"
      unfolding y compl by (simp_all add: conv_out_length3)
    then have "branch_dist (conv_out 6 [91, 121, 117] (2 * q) u) y0 y1 y2 = 3"
      using branch_dist_complement
        [of "conv_out 6 [91, 121, 117] (2 * q) u", OF conv_out_length3 conv_out_bit]
      by (simp only:)
    then have "cand M y0 y1 y2 (2 * q) u = M ! nat (2 * q) + 3"
      by (simp add: cand_def)
    with path_inv_bounds(1) [OF inv q2]
    have "cand M y0 y1 y2 \<tau> u < cand M y0 y1 y2 (2 * q) u"
      by (simp add: on)
    then show ?thesis
      by (simp add: nxt cell \<tau>q on)
  qed
qed

text \<open>The bounds that keep every sum inside the \<open>int32\<close> range.\<close>

lemma cell_bound:
  assumes inv: "path_inv M \<tau>" and \<tau>: "0 \<le> \<tau>" "\<tau> < 64" and u: "u \<in> {0, 1}"
    and y: "y0 \<in> {0, 1}" "y1 \<in> {0, 1}" "y2 \<in> {0, 1}"
    and s: "0 \<le> s" "s < 64"
    and j: "1 \<le> j" "j \<le> 6"
    and agree: "s mod 2 ^ (6 - j) = conv_next 6 \<tau> u mod 2 ^ (6 - j)"
  shows "fst (viterbi_cell 6 M y0 y1 y2 s) \<le> INF_METRIC + 3 * int j"
proof -
  define p where "p = 2 * (s mod 32) + \<tau> mod 2"
  have p: "0 \<le> p" "p < 64"
    by (simp_all add: p_def)
  have "s mod 2 ^ (6 - j) = (32 * u + \<tau> div 2) mod 2 ^ (6 - j)"
    using agree by (simp only: conv_next_arith [OF \<tau> u])
  with j have "p mod 2 ^ (6 - (j - 1)) = \<tau> mod 2 ^ (6 - (j - 1))"
    unfolding p_def by (rule agree_pred)
  moreover have "j - 1 \<le> 6"
    using j by simp
  moreover have "p \<in> {0..63}"
    using p by simp
  ultimately have "M ! nat p \<le> INF_METRIC + 3 * int (j - 1)"
    using inv unfolding path_inv_def by blast
  with cand_range(2) [OF inv y p, of "s div 32"] j
  have cp: "cand M y0 y1 y2 p (s div 32) \<le> INF_METRIC + 3 * int j"
    by simp
  have "p = 2 * (s mod 32) \<or> p = 2 * (s mod 32) + 1"
    unfolding p_def by presburger
  with cp show ?thesis
    by (auto simp: viterbi_cell_arith [OF inv y s])
qed

lemma cell_nonneg:
  assumes inv: "path_inv M \<tau>" and y: "y0 \<in> {0, 1}" "y1 \<in> {0, 1}" "y2 \<in> {0, 1}"
    and s: "0 \<le> s" "s < 64"
  shows "0 \<le> fst (viterbi_cell 6 M y0 y1 y2 s)"
proof -
  have "0 \<le> 2 * (s mod 32)" "2 * (s mod 32) < 64" "0 \<le> 2 * (s mod 32) + 1"
    "2 * (s mod 32) + 1 < 64"
    by simp_all
  from cand_range(3) [OF inv y this(1,2), of "s div 32"]
    cand_range(3) [OF inv y this(3,4), of "s div 32"]
  show ?thesis
    by (simp add: viterbi_cell_arith [OF inv y s])
qed


subsection \<open>The forward loop\<close>

lemma viterbi_step_length:
  "length (fst (viterbi_step 6 64 M y0 y1 y2)) = 64"
  "length (snd (viterbi_step 6 64 M y0 y1 y2)) = 64"
  by (simp_all add: viterbi_step_def)

lemma viterbi_step_nth:
  assumes "0 \<le> s" "s < 64"
  shows "fst (viterbi_step 6 64 M y0 y1 y2) ! nat s = fst (viterbi_cell 6 M y0 y1 y2 s)"
    and "snd (viterbi_step 6 64 M y0 y1 y2) ! nat s = snd (viterbi_cell 6 M y0 y1 y2 s)"
proof -
  from assms have "nat s < 64" by simp
  with assms(1) show
    "fst (viterbi_step 6 64 M y0 y1 y2) ! nat s = fst (viterbi_cell 6 M y0 y1 y2 s)"
    "snd (viterbi_step 6 64 M y0 y1 y2) ! nat s = snd (viterbi_cell 6 M y0 y1 y2 s)"
    by (simp_all add: viterbi_step_def)
qed

lemma conv_next_range:
  assumes "0 \<le> \<tau>" "\<tau> < 64" "u \<in> {0, 1}"
  shows "0 \<le> conv_next 6 \<tau> u" and "conv_next 6 \<tau> u < 64"
  using assms by (auto simp: conv_next_arith [OF assms])

text \<open>
  One pass of the forward loop on the triple the encoder produced in state \<open>\<tau>\<close> on input
  \<open>u\<close>: the invariant moves on to the successor state, and the predecessor recorded for
  the successor is \<open>\<tau>\<close>.
\<close>

lemma viterbi_step_inv:
  assumes inv: "path_inv M \<tau>" and \<tau>: "0 \<le> \<tau>" "\<tau> < 64" and u: "u \<in> {0, 1}"
    and y: "y0 = conv_out 6 [91, 121, 117] \<tau> u ! 0" "y1 = conv_out 6 [91, 121, 117] \<tau> u ! 1"
      "y2 = conv_out 6 [91, 121, 117] \<tau> u ! 2"
  shows "path_inv (fst (viterbi_step 6 64 M y0 y1 y2)) (conv_next 6 \<tau> u)"
    and "snd (viterbi_step 6 64 M y0 y1 y2) ! nat (conv_next 6 \<tau> u) = \<tau>"
proof -
  define \<tau>' where "\<tau>' = conv_next 6 \<tau> u"
  define M' where "M' = fst (viterbi_step 6 64 M y0 y1 y2)"
  have \<tau>': "0 \<le> \<tau>'" "\<tau>' < 64"
    unfolding \<tau>'_def using \<tau> u by (rule conv_next_range)+
  have ybits: "y0 \<in> {0, 1}" "y1 \<in> {0, 1}" "y2 \<in> {0, 1}"
    unfolding y by (rule conv_out_bits3)+
  have cell: "viterbi_cell 6 M y0 y1 y2 \<tau>' = (0, \<tau>)"
    unfolding \<tau>'_def using inv \<tau> u y by (rule cell_on_path)
  have on: "M' ! nat \<tau>' = 0"
    by (simp add: M'_def viterbi_step_nth [OF \<tau>'] cell)
  show "snd (viterbi_step 6 64 M y0 y1 y2) ! nat (conv_next 6 \<tau> u) = \<tau>"
    using cell by (simp add: viterbi_step_nth [OF \<tau>'] flip: \<tau>'_def)
  have each: "0 \<le> M' ! nat s \<and>
        (\<forall>j \<le> 6. s mod 2 ^ (6 - j) = \<tau>' mod 2 ^ (6 - j) \<longrightarrow> M' ! nat s \<le> INF_METRIC + 3 * int j)"
    if "s \<in> {0..63}" for s
  proof (intro conjI allI impI)
    from that have s: "0 \<le> s" "s < 64" by simp_all
    have M's: "M' ! nat s = fst (viterbi_cell 6 M y0 y1 y2 s)"
      by (simp add: M'_def viterbi_step_nth [OF s])
    show "0 \<le> M' ! nat s"
      unfolding M's using inv ybits s by (rule cell_nonneg)
    fix j :: nat
    assume j: "j \<le> 6" and agree: "s mod 2 ^ (6 - j) = \<tau>' mod 2 ^ (6 - j)"
    show "M' ! nat s \<le> INF_METRIC + 3 * int j"
    proof (cases "j = 0")
      case True
      with agree s \<tau>' have "s = \<tau>'" by simp
      then show ?thesis
        by (simp add: on INF_METRIC_def)
    next
      case False
      then have "1 \<le> j" by simp
      then show ?thesis
        unfolding M's using inv \<tau> u ybits s j agree
        by (intro cell_bound) (simp_all add: \<tau>'_def)
    qed
  qed
  have "length M' = 64"
    by (simp add: M'_def viterbi_step_length)
  with on each show "path_inv (fst (viterbi_step 6 64 M y0 y1 y2)) (conv_next 6 \<tau> u)"
    unfolding path_inv_def M'_def [symmetric] \<tau>'_def [symmetric] by blast
qed

lemma path_inv_init: "path_inv ((replicate 64 INF_METRIC)[0 := 0]) 0"
proof -
  have "0 \<le> (replicate 64 INF_METRIC)[0 := 0] ! nat s \<and>
        (\<forall>j \<le> 6. s mod 2 ^ (6 - j) = 0 mod 2 ^ (6 - j)
           \<longrightarrow> (replicate 64 INF_METRIC)[0 := 0] ! nat s \<le> INF_METRIC + 3 * int j)"
    if "s \<in> {0..63}" for s
  proof -
    from that have "nat s < 64" by auto
    then show ?thesis
      by (cases "nat s = 0") (simp_all add: INF_METRIC_def nth_list_update)
  qed
  then show ?thesis
    unfolding path_inv_def by simp
qed


lemma forward_state_0:
  "forward_state coded n 0 = ((replicate 64 INF_METRIC)[0 := 0], replicate n (replicate 64 0))"
  by (simp add: forward_state_def)

lemma forward_state_Suc:
  "forward_state coded n (Suc t) =
     (fst (viterbi_step 6 64 (fst (forward_state coded n t)) (coded ! (3 * t))
             (coded ! (3 * t + 1)) (coded ! (3 * t + 2))),
      (snd (forward_state coded n t))
        [t := snd (viterbi_step 6 64 (fst (forward_state coded n t)) (coded ! (3 * t))
                     (coded ! (3 * t + 1)) (coded ! (3 * t + 2)))])"
  by (simp add: forward_state_def split_beta Let_def)

lemma viterbi_forward_eq: "viterbi_forward 6 64 coded n = forward_state coded n n"
  by (simp add: viterbi_forward_def forward_state_def)

text \<open>
  After \<open>t\<close> passes over the coded bits of \<open>w\<close>, the metrics satisfy the invariant for
  the state the encoder had reached after \<open>t\<close> bits, and every row written so far sends
  the encoder's next state back to the encoder's state.
\<close>

lemma forward_inv:
  assumes w: "set w \<subseteq> {0, 1}" and t: "t \<le> length w"
  defines "coded \<equiv> conv_encode_loop 6 [91, 121, 117] 0 w"
  shows "path_inv (fst (forward_state coded (length w) t)) (enc_state 0 w t) \<and>
         length (snd (forward_state coded (length w) t)) = length w \<and>
         (\<forall>k<t. snd (forward_state coded (length w) t) ! k ! nat (enc_state 0 w (Suc k))
                  = enc_state 0 w k)"
  using t
proof (induction t)
  case 0
  show ?case
    by (simp add: forward_state_0 enc_state_0 path_inv_init)
next
  case (Suc t)
  then have t: "t < length w" by simp
  define M where "M = fst (forward_state coded (length w) t)"
  define P where "P = snd (forward_state coded (length w) t)"
  define \<tau> where "\<tau> = enc_state 0 w t"
  define row where "row = snd (viterbi_step 6 64 M (coded ! (3 * t)) (coded ! (3 * t + 1))
                                 (coded ! (3 * t + 2)))"
  from Suc.IH t have inv: "path_inv M \<tau>" and lenP: "length P = length w"
    and old: "\<forall>k<t. P ! k ! nat (enc_state 0 w (Suc k)) = enc_state 0 w k"
    by (simp_all add: M_def P_def \<tau>_def)
  have \<tau>: "0 \<le> \<tau>" "\<tau> < 64"
    using enc_state_range [OF w, of 0 t] t by (simp_all add: \<tau>_def)
  have u: "w ! t \<in> {0, 1}"
    using w t nth_mem by blast
  have y: "coded ! (3 * t) = conv_out 6 [91, 121, 117] \<tau> (w ! t) ! 0"
    "coded ! (3 * t + 1) = conv_out 6 [91, 121, 117] \<tau> (w ! t) ! 1"
    "coded ! (3 * t + 2) = conv_out 6 [91, 121, 117] \<tau> (w ! t) ! 2"
    using conv_encode_loop_nth [OF t, of 0 0] conv_encode_loop_nth [OF t, of 1 0]
      conv_encode_loop_nth [OF t, of 2 0]
    by (simp_all add: coded_def \<tau>_def)
  have nxt: "enc_state 0 w (Suc t) = conv_next 6 \<tau> (w ! t)"
    by (simp add: enc_state_Suc [OF t] \<tau>_def)
  have step: "forward_state coded (length w) (Suc t)
                = (fst (viterbi_step 6 64 M (coded ! (3 * t)) (coded ! (3 * t + 1))
                          (coded ! (3 * t + 2))), P[t := row])"
    by (simp only: forward_state_Suc M_def P_def row_def)
  have inv': "path_inv (fst (forward_state coded (length w) (Suc t))) (enc_state 0 w (Suc t))"
    unfolding step nxt fst_conv using inv \<tau> u y by (rule viterbi_step_inv)
  have rowt: "row ! nat (enc_state 0 w (Suc t)) = \<tau>"
    unfolding row_def nxt using inv \<tau> u y by (rule viterbi_step_inv)
  have "P[t := row] ! k ! nat (enc_state 0 w (Suc k)) = enc_state 0 w k" if "k < Suc t" for k
  proof (cases "k = t")
    case True
    then show ?thesis
      using t lenP rowt by (simp add: \<tau>_def)
  next
    case False
    with that have "k < t" by simp
    with old show ?thesis by simp
  qed
  with inv' lenP show ?case
    by (simp add: step)
qed

subsection \<open>The traceback loop\<close>

lemma msb_of_next:
  assumes "0 \<le> \<tau>" "\<tau> < 64" "u \<in> {0, 1}"
  shows "drop_bit (6 - 1) (conv_next 6 \<tau> u) AND 1 = u"
proof -
  have "drop_bit (6 - 1) (conv_next 6 \<tau> u) AND 1 = u_for_state 6 (conv_next 6 \<tau> u)"
    by (simp add: u_for_state_def)
  also have "\<dots> = conv_next 6 \<tau> u div 32"
    using conv_next_range [OF assms] by (rule u_for_state_arith)
  also have "\<dots> = u"
    using assms by (simp add: conv_next_arith [OF assms])
  finally show ?thesis .
qed

lemma traceback_state_end: "traceback_state P n n = (0, replicate n 0)"
  by (simp add: traceback_state_def)

lemma traceback_state_step:
  assumes "k < n"
  shows "traceback_state P n k =
     (P ! k ! nat (fst (traceback_state P n (Suc k))),
      (snd (traceback_state P n (Suc k)))
        [k := drop_bit (6 - 1) (fst (traceback_state P n (Suc k))) AND 1])"
proof -
  from assms have "rev [k..<n] = rev [Suc k..<n] @ [k]"
    by (simp add: upt_conv_Cons)
  then show ?thesis
    by (simp add: traceback_state_def split_beta)
qed

lemma viterbi_traceback_eq: "viterbi_traceback 6 P n = traceback_state P n 0"
  by (simp add: viterbi_traceback_def traceback_state_def)

text \<open>
  Started in state 0, which is where the flushed encoder ends, the traceback walks the
  encoder's path backwards and reads off the input bits.
\<close>

lemma traceback_inv:
  assumes w: "set w \<subseteq> {0, 1}"
    and P: "\<forall>k<length w. P ! k ! nat (enc_state 0 w (Suc k)) = enc_state 0 w k"
    and final: "enc_state 0 w (length w) = 0"
    and k: "k \<le> length w"
  shows "fst (traceback_state P (length w) k) = enc_state 0 w k \<and>
         length (snd (traceback_state P (length w) k)) = length w \<and>
         (\<forall>i. k \<le> i \<and> i < length w \<longrightarrow> snd (traceback_state P (length w) k) ! i = w ! i)"
  using k
proof (induction k rule: inc_induct)
  case base
  show ?case
    by (simp add: traceback_state_end final)
next
  case (step k)
  define S where "S = traceback_state P (length w) (Suc k)"
  from step.IH have st: "fst S = enc_state 0 w (Suc k)" and len: "length (snd S) = length w"
    and dec: "\<forall>i. Suc k \<le> i \<and> i < length w \<longrightarrow> snd S ! i = w ! i"
    by (simp_all add: S_def)
  have k: "k < length w"
    by (rule step.hyps(2))
  have \<tau>: "0 \<le> enc_state 0 w k" "enc_state 0 w k < 64"
    using enc_state_range [OF w, of 0 k] k by simp_all
  have u: "w ! k \<in> {0, 1}"
    using w k nth_mem by blast
  have bit: "drop_bit (6 - 1) (fst S) AND 1 = w ! k"
    unfolding st enc_state_Suc [OF k] using \<tau> u by (rule msb_of_next)
  have eq: "traceback_state P (length w) k = (P ! k ! nat (fst S), (snd S)[k := w ! k])"
    by (simp only: traceback_state_step [OF k] S_def [symmetric] bit)
  have "(snd S)[k := w ! k] ! i = w ! i" if "k \<le> i" "i < length w" for i
    using that dec len by (cases "i = k") simp_all
  then show ?case
    using P k len by (simp add: eq st)
qed

subsection \<open>Decoding an encoding\<close>

text \<open>
  Claim C1. For every bit array \<open>b\<close> with entries 0 and 1, decoding the terminated
  encoding of \<open>b\<close>, with no bit changed in between, gives \<open>b\<close> back:
  \<open>conv_decode_terminated(conv_encode(b, terminate=True, tail_biting=False),
  drop_tail=True) == b\<close>. The path metrics are the decoder's \<open>int32\<close> values, wrap-around
  included; the proof shows that no sum wraps on such an input.
\<close>

theorem viterbi_decodes_encoding:
  assumes "set b \<subseteq> {0, 1}"
  shows "conv_decode_terminated (conv_encode b True False DEFAULT_CONV) DEFAULT_CONV True = b"
proof -
  define w where "w = b @ replicate 6 (0 :: int)"
  define coded where "coded = conv_encode_loop 6 [91, 121, 117] 0 w"
  have w: "set w \<subseteq> {0, 1}"
    using assms by (auto simp: w_def)
  have n: "length w = length b + 6"
    by (simp add: w_def)
  have enc: "conv_encode b True False DEFAULT_CONV = coded"
    by (simp add: conv_encode_def conv_init_state_def memory_DEFAULT_CONV generators_DEFAULT_CONV
        coded_def w_def)
  have len: "length coded = 3 * length w"
    by (simp add: coded_def conv_encode_loop_length)
  have "0 \<le> enc_state 0 b (length b) \<and> enc_state 0 b (length b) < 64"
    using assms by (intro enc_state_range) simp_all
  then have "fold (\<lambda>u state. conv_next 6 state u) (replicate 6 0) (enc_state 0 b (length b)) = 0"
    by (intro flush_to_zero) simp_all
  then have "enc_state (enc_state 0 b (length b)) (replicate 6 0) 6 = 0"
    unfolding enc_state_def [of _ "replicate 6 0"] by simp
  then have final: "enc_state 0 w (length w) = 0"
    unfolding w_def using enc_state_append [of 0 b "replicate 6 0" 6] by simp
  define P where "P = snd (forward_state coded (length w) (length w))"
  have "\<forall>k<length w. P ! k ! nat (enc_state 0 w (Suc k)) = enc_state 0 w k"
    using forward_inv [OF w order_refl] by (simp add: P_def coded_def)
  from traceback_inv [OF w this final, of 0]
  have tb: "length (snd (traceback_state P (length w) 0)) = length w"
    "\<forall>i<length w. snd (traceback_state P (length w) 0) ! i = w ! i"
    by simp_all
  then have u_hat: "snd (traceback_state P (length w) 0) = w"
    by (intro nth_equalityI) simp_all
  have ge: "6 \<le> length w"
    using n by simp
  have "conv_decode_terminated coded DEFAULT_CONV True
          = py_drop_last 6 (snd (traceback_state P (length w) 0))"
    using ge
    by (simp add: conv_decode_terminated_def len memory_DEFAULT_CONV n_states_DEFAULT_CONV
        viterbi_forward_eq viterbi_traceback_eq split_beta Let_def P_def)
  also have "\<dots> = py_drop_last 6 w"
    by (simp only: u_hat)
  also have "\<dots> = b"
    by (simp add: py_drop_last_def w_def)
  finally show ?thesis
    by (simp only: enc)
qed

theorem viterbi_decodes_encoding_witness:
  "conv_decode_terminated (conv_encode [1, 0, 1, 1] True False DEFAULT_CONV) DEFAULT_CONV True
     = [1, 0, 1, 1]"
  using viterbi_decodes_encoding [of "[1, 0, 1, 1]"] by simp


end
